theory Spec2Isabelle
  imports Main "HOL-Library.Word" "HOL-Library.Sublist" "HOL-Library.Multiset"
begin

section \<open>longest-word: the data structures of main.c\<close>

text \<open>
  A \<^verbatim>\<open>char *\<close> is modelled by the list of the bytes of its buffer from the pointer on;
  the terminating NUL of the buffer is not part of the list. The C string at the pointer
  ends at the first NUL byte, which a buffer filled by \<^verbatim>\<open>getline\<close> may hold before
  its end: \<^verbatim>\<open>strlen\<close> counts the bytes before it, \<^verbatim>\<open>strdup\<close> copies them, and
  \<^verbatim>\<open>strndup(s, n)\<close> copies at most \<open>n\<close> of them. A line returned by \<^verbatim>\<open>getline\<close> is
  the list of the bytes read, line terminator included, and \<^verbatim>\<open>read\<close> is its length.
\<close>

definition NUL :: char where
  "NUL = CHR 0x00"

definition strlen :: "string \<Rightarrow> nat" where
  "strlen s = length (takeWhile (\<lambda>c. c \<noteq> NUL) s)"

definition strdup :: "string \<Rightarrow> string" where
  "strdup s = takeWhile (\<lambda>c. c \<noteq> NUL) s"

definition strndup :: "string \<Rightarrow> nat \<Rightarrow> string" where
  "strndup s n = take n (takeWhile (\<lambda>c. c \<noteq> NUL) s)"

text \<open>
  \<^verbatim>\<open>#define NBCHAR 26\<close> and \<^verbatim>\<open>#define INDEX(x) ((x) - 'a')\<close>. The subtraction is
  done on C ints, so the index of a character below \<^verbatim>\<open>'a'\<close> is negative.
\<close>

definition NBCHAR :: int where
  "NBCHAR = 26"

definition INDEX :: "char \<Rightarrow> int" where
  "INDEX x = of_char x - of_char (CHR ''a'')"

text \<open>
  \<^verbatim>\<open>struct trie { char word_end; struct trie *children[NBCHAR]; }\<close>. The array of child
  pointers is the function from an index to the child stored there, \<open>None\<close> for
  \<^verbatim>\<open>NULL\<close>. The C array has the slots \<open>0 .. NBCHAR - 1\<close> only; the words for which every
  access stays inside it are the ones \<open>in_alphabet\<close> accepts, and the theorems below
  are stated for those. \<open>word_end\<close> only ever holds 0 or 1 and is a boolean here.
\<close>

datatype trie = Trie (word_end: bool) (children: "int \<Rightarrow> trie option")

definition calloc_trie :: trie where
  "calloc_trie = Trie False (\<lambda>_. None)"

definition in_alphabet :: "string \<Rightarrow> bool" where
  "in_alphabet w = list_all (\<lambda>c. 0 \<le> INDEX c \<and> INDEX c < NBCHAR) w"

text \<open>
  \<^verbatim>\<open>missing_list\<close> is a linked list of strings and \<^verbatim>\<open>pending_list\<close> a linked list of
  a word with its missing list; both push functions put the new cell at the head.
\<close>

definition push_to_missing :: "string list \<Rightarrow> string \<Rightarrow> string list" where
  "push_to_missing list missing = missing # list"

definition push_to_pending ::
  "(string \<times> string list) list \<Rightarrow> string \<Rightarrow> string list \<Rightarrow> (string \<times> string list) list" where
  "push_to_pending list word missing = (word, missing) # list"

section \<open>insert\<close>

text \<open>
  \<^verbatim>\<open>insert(node, word, offset, len, missing)\<close> updates the trie below \<open>node\<close> in place
  and returns the missing list; the model returns the updated node with it. The test
  \<^verbatim>\<open>len - offset > 0\<close> is on \<^verbatim>\<open>size_t\<close>; every call has \<open>offset \<le> len\<close> (the
  driver starts at offset 0 and each call adds one while \<open>offset < len\<close>), where it
  agrees with the subtraction on naturals.
\<close>

function insert_trie ::
  "trie \<Rightarrow> string \<Rightarrow> nat \<Rightarrow> nat \<Rightarrow> string list \<Rightarrow> trie \<times> string list" where
  "insert_trie node word offset len missing =
    (if len - offset > 0 then
       let missing1 = (if word_end node
                       then push_to_missing missing (strndup (drop offset word) (len - offset))
                       else missing);
           i = INDEX (word ! offset);
           child = (case children node i of None \<Rightarrow> calloc_trie | Some c \<Rightarrow> c);
           (child', missing2) = insert_trie child word (offset + 1) len missing1
       in (Trie (word_end node) ((children node)(i \<mapsto> child')), missing2)
     else (Trie True (children node), missing))"
  by pat_completeness auto
termination
  by (relation "measure (\<lambda>(node, word, offset, len, missing). len - offset)") auto

declare insert_trie.simps [simp del]

section \<open>is_in_trie\<close>

text \<open>
  \<^verbatim>\<open>is_in_trie(node, word, len)\<close> reads the global \<^verbatim>\<open>root\<close>, here the first argument.
  \<open>word\<close> is the buffer at the pointer, \<^verbatim>\<open>word + 1\<close> drops one byte.
  The second disjunct calls the function on the root with the same string, so the
  recursion need not end: not returning is the value \<open>None\<close>.
\<close>

partial_function (option) is_in_trie :: "trie \<Rightarrow> trie option \<Rightarrow> string \<Rightarrow> nat \<Rightarrow> bool option" where
  "is_in_trie r node word len =
    (case node of
       None \<Rightarrow> Some False
     | Some n \<Rightarrow>
         if len = 0 then Some (word_end n)
         else Option.bind (is_in_trie r (children n (INDEX (word ! 0))) (drop 1 word) (len - 1))
                (\<lambda>b. if b then Some True
                     else if word_end n then is_in_trie r (Some r) word len
                     else Some False))"

section \<open>main: reading the file\<close>

record globals =
  root :: trie
  pending :: "(string \<times> string list) list"

definition init_globals :: globals where
  "init_globals = \<lparr>root = calloc_trie, pending = []\<rparr>"

text \<open>
  One turn of the \<^verbatim>\<open>getline\<close> loop. \<^verbatim>\<open>has_prefix\<close> is assigned and never read, so
  it is left out. The word kept in the pending list is \<^verbatim>\<open>strdup(line)\<close>: the line up to
  its first NUL byte.
\<close>

definition read_line :: "string \<Rightarrow> globals \<Rightarrow> globals" where
  "read_line line g =
    (let read = length line in
     if read \<le> 2 then g
     else
       let (r, missing) = insert_trie (root g) line 0 (read - 2) []
       in \<lparr>root = r,
           pending = (if missing \<noteq> [] then push_to_pending (pending g) (strdup line) missing
                      else pending g)\<rparr>)"

fun read_lines :: "string list \<Rightarrow> globals \<Rightarrow> globals" where
  "read_lines [] g = g"
| "read_lines (line # rest) g = read_lines rest (read_line line g)"

section \<open>main: checking the pending list\<close>

record ranking =
  longest :: "string option"
  longest_len :: nat
  oldlongest :: "string option"
  oldlongest_len :: nat
  total :: "32 word"

definition init_ranking :: ranking where
  "init_ranking = \<lparr>longest = None, longest_len = 0, oldlongest = None, oldlongest_len = 0, total = 0\<rparr>"

text \<open>The body of the \<^verbatim>\<open>if\<close> of the inner loop, but for \<^verbatim>\<open>matched = 1\<close>.\<close>

definition new_match :: "string \<Rightarrow> ranking \<Rightarrow> ranking" where
  "new_match word rk =
    (let len = strlen word;
         rk1 = (if len > longest_len rk then
                  rk\<lparr>oldlongest := longest rk, oldlongest_len := longest_len rk,
                     longest := Some (strdup word), longest_len := len\<rparr>
                else if len > oldlongest_len rk then
                  rk\<lparr>oldlongest := Some (strdup word), oldlongest_len := len\<rparr>
                else rk)
     in rk1\<lparr>total := total rk1 + 1\<rparr>)"

text \<open>
  The inner loop over \<^verbatim>\<open>pending->missing\<close>, with \<^verbatim>\<open>matched\<close> as a boolean. C's
  \<^verbatim>\<open>&&\<close> calls \<^verbatim>\<open>is_in_trie\<close> only while \<^verbatim>\<open>matched\<close> is 0.
\<close>

fun check_missing :: "trie \<Rightarrow> string \<Rightarrow> string list \<Rightarrow> bool \<Rightarrow> ranking \<Rightarrow> (bool \<times> ranking) option" where
  "check_missing r word [] matched rk = Some (matched, rk)"
| "check_missing r word (m # rest) matched rk =
    (if matched then check_missing r word rest matched rk
     else
       (case is_in_trie r (Some r) m (strlen m) of
          None \<Rightarrow> None
        | Some res \<Rightarrow>
            if res then check_missing r word rest True (new_match word rk)
            else check_missing r word rest matched rk))"

fun check_pending :: "trie \<Rightarrow> (string \<times> string list) list \<Rightarrow> ranking \<Rightarrow> ranking option" where
  "check_pending r [] rk = Some rk"
| "check_pending r ((word, missing) # rest) rk =
    (case check_missing r word missing False rk of
       None \<Rightarrow> None
     | Some (matched, rk') \<Rightarrow> check_pending r rest rk')"

text \<open>
  The program on the lines of its file: what the three \<^verbatim>\<open>printf\<close> calls receive, the
  longest word, the second longest (\<open>None\<close> where \<^verbatim>\<open>"NULL"\<close> is printed) and the total.
\<close>

definition main_prog :: "string list \<Rightarrow> (string option \<times> string option \<times> 32 word) option" where
  "main_prog lines =
    (let g = read_lines lines init_globals
     in map_option (\<lambda>rk. (longest rk, oldlongest rk, total rk))
          (check_pending (root g) (pending g) init_ranking))"

text \<open>
  The words whose confirmation the inner loop records with \<^verbatim>\<open>matched = 1\<close>, in the
  order of the pending list.
\<close>

definition confirmed_words :: "string list \<Rightarrow> string list" where
  "confirmed_words lines =
    (let g = read_lines lines init_globals
     in map fst (filter (\<lambda>(word, missing).
          map_option fst (check_missing (root g) word missing False init_ranking) = Some True)
          (pending g)))"

section \<open>Input lines and the dictionary\<close>

text \<open>
  The loop passes the first \<^verbatim>\<open>read - 2\<close> characters of a line to \<^verbatim>\<open>insert\<close> and skips
  the lines with \<^verbatim>\<open>read <= 2\<close>. \<open>words_of\<close> lists the words inserted; a line is well
  formed when its word stays inside the array of children. Its last two bytes are free:
  a line feed alone, or a NUL byte, may stand there.
\<close>

definition words_of :: "string list \<Rightarrow> string list" where
  "words_of lines =
    map (\<lambda>line. take (length line - 2) line) (filter (\<lambda>line. length line > 2) lines)"

definition wf_line :: "string \<Rightarrow> bool" where
  "wf_line line = in_alphabet (take (length line - 2) line)"

definition CRLF :: string where
  "CRLF = [CHR 0x0D, CHR 0x0A]"

text \<open>Every word comes after the words of the list that are its proper prefixes.\<close>

fun prefix_first :: "string list \<Rightarrow> bool" where
  "prefix_first [] = True"
| "prefix_first (w # ws) = (list_all (\<lambda>v. \<not> strict_prefix v w) ws \<and> prefix_first ws)"

section \<open>Auxiliary functions of the proofs\<close>

text \<open>
  \<open>insert_rest\<close> is \<^verbatim>\<open>insert\<close> on the characters not yet consumed, \<open>stored\<close> follows a
  string down the trie and reads the flag, and \<open>match_from\<close> is \<^verbatim>\<open>is_in_trie\<close> with the
  call on the root unfolded once, for a root whose flag is clear. Lemmas
  \<open>insert_trie_rest\<close> and \<open>is_in_trie_total\<close> relate them to the functions of the program.
\<close>

fun insert_rest :: "trie \<Rightarrow> string \<Rightarrow> string list \<Rightarrow> trie \<times> string list" where
  "insert_rest node [] missing = (Trie True (children node), missing)"
| "insert_rest node (c # cs) missing =
    (let missing1 = (if word_end node then push_to_missing missing (strdup (c # cs)) else missing);
         child = (case children node (INDEX c) of None \<Rightarrow> calloc_trie | Some t \<Rightarrow> t);
         (child', missing2) = insert_rest child cs missing1
     in (Trie (word_end node) ((children node)(INDEX c \<mapsto> child')), missing2))"

fun stored :: "trie option \<Rightarrow> string \<Rightarrow> bool" where
  "stored None w = False"
| "stored (Some n) [] = word_end n"
| "stored (Some n) (c # cs) = stored (children n (INDEX c)) cs"

fun match_from :: "trie \<Rightarrow> trie option \<Rightarrow> string \<Rightarrow> bool" where
  "match_from r None w = False"
| "match_from r (Some n) [] = word_end n"
| "match_from r (Some n) (c # cs) =
    (match_from r (children n (INDEX c)) cs \<or>
     (word_end n \<and> match_from r (children r (INDEX c)) cs))"

text \<open>
  \<open>trie_dict r D\<close>: the strings stored in the trie \<open>r\<close> are the words of \<open>D\<close>.
  \<open>in_star D w\<close>: \<open>w\<close> is a concatenation of zero or more words of \<open>D\<close>;
  \<open>segmented D w\<close>: of one or more non-empty words of \<open>D\<close>. \<open>breaks D w\<close> are the
  suffixes of \<open>w\<close>, as C strings, left after a proper, non-empty prefix that is a word of
  \<open>D\<close>: what \<^verbatim>\<open>insert\<close> pushes on the missing list when the trie holds \<open>D\<close>.
  \<open>rec_ok r\<close> holds for a pending record with a suffix that matches.
\<close>

definition trie_dict :: "trie \<Rightarrow> string set \<Rightarrow> bool" where
  "trie_dict r D = (\<forall>w. stored (Some r) w = (w \<in> D))"

definition in_star :: "string set \<Rightarrow> string \<Rightarrow> bool" where
  "in_star D w = (\<exists>ps. concat ps = w \<and> set ps \<subseteq> D)"

definition breaks :: "string set \<Rightarrow> string \<Rightarrow> string set" where
  "breaks D w = {strdup (drop k w) | k. 0 < k \<and> k < length w \<and> take k w \<in> D}"

definition rec_ok :: "trie \<Rightarrow> string \<times> string list \<Rightarrow> bool" where
  "rec_ok r rec = (\<exists>m\<in>set (snd rec). match_from r (Some r) (strdup m))"

definition segmented :: "string set \<Rightarrow> string \<Rightarrow> bool" where
  "segmented D w = (\<exists>ps. ps \<noteq> [] \<and> concat ps = w \<and> (\<forall>p\<in>set ps. p \<noteq> [] \<and> p \<in> D))"

text \<open>
  \<open>cands P D lines\<close> are the stored words of the lines, last read first, that get a
  pending record with a suffix accepted by \<open>P\<close> when the reading starts with the
  dictionary \<open>D\<close>.
  \<open>top2\<close> is the update of the two lengths of the ranking by one confirmed length.
\<close>

fun cands :: "(string \<Rightarrow> bool) \<Rightarrow> string set \<Rightarrow> string list \<Rightarrow> string list" where
  "cands P D [] = []"
| "cands P D (line # rest) =
    (if length line > 2 then
       cands P (insert (take (length line - 2) line) D) rest @
       (if \<exists>m\<in>breaks D (take (length line - 2) line). P m then [strdup line] else [])
     else cands P D rest)"

fun top2 :: "nat \<Rightarrow> nat \<times> nat \<Rightarrow> nat \<times> nat" where
  "top2 l (a, b) = (if l > a then (l, a) else if l > b then (a, l) else (a, b))"

section \<open>The program functions and their auxiliaries\<close>

subsection \<open>C strings\<close>

lemma strdup_idem: "strdup (strdup s) = strdup s"
  by (simp add: strdup_def)

lemma strdup_nul_free: "NUL \<notin> set (strdup s)"
  unfolding strdup_def by (metis (mono_tags, lifting) set_takeWhileD)

lemma strdup_id: "NUL \<notin> set s \<Longrightarrow> strdup s = s"
  unfolding strdup_def by (rule takeWhile_eq_all_conv [THEN iffD2]) auto

lemma strlen_strdup: "strlen s = length (strdup s)"
  by (simp add: strlen_def strdup_def)

lemma strlen_id: "NUL \<notin> set s \<Longrightarrow> strlen s = length s"
  by (simp add: strlen_strdup strdup_id)

lemma strlen_le: "strlen s \<le> length s"
  by (simp add: strlen_def length_takeWhile_le)

lemma take_strlen: "take (strlen s) s = strdup s"
  unfolding strlen_def strdup_def by (rule takeWhile_eq_take [symmetric])

lemma take_takeWhile_commute: "take n (takeWhile P xs) = takeWhile P (take n xs)"
proof (induction xs arbitrary: n)
  case Nil
  then show ?case by simp
next
  case (Cons x xs)
  then show ?case by (cases n) simp_all
qed

lemma strndup_eq: "strndup s n = strdup (take n s)"
  by (simp add: strndup_def strdup_def take_takeWhile_commute)

lemma strdup_append: "NUL \<notin> set u \<Longrightarrow> strdup (u @ v) = u @ strdup v"
  unfolding strdup_def by (rule takeWhile_append2) auto

lemma in_alphabet_nul_free: "in_alphabet w \<Longrightarrow> NUL \<notin> set w"
  by (auto simp: in_alphabet_def list_all_iff INDEX_def NUL_def)

lemma in_alphabet_take: "in_alphabet w \<Longrightarrow> in_alphabet (take k w)"
  unfolding in_alphabet_def list_all_iff by (auto dest: in_set_takeD)


lemma strdup_line:
  assumes "wf_line line"
  shows "strdup line =
    take (length line - 2) line @ strdup (drop (length line - 2) line)"
proof -
  have "NUL \<notin> set (take (length line - 2) line)"
    using assms unfolding wf_line_def by (rule in_alphabet_nul_free)
  from strdup_append [OF this, of "drop (length line - 2) line"] show ?thesis by simp
qed

subsection \<open>The matcher returns, and insert follows the word\<close>

lemma is_in_trie_take:
  "\<not> word_end r \<Longrightarrow> len \<le> length w \<Longrightarrow>
   is_in_trie r node w len = Some (match_from r node (take len w))"
proof (induction len arbitrary: node w)
  case 0
  then show ?case by (subst is_in_trie.simps) (simp split: option.split)
next
  case (Suc len)
  then obtain c cs where w: "w = c # cs" by (cases w) auto
  have le: "len \<le> length cs" using Suc.prems w by simp
  have root: "is_in_trie r (Some r) w (Suc len) =
      Some (match_from r (children r (INDEX c)) (take len cs))"
    using Suc.IH [OF Suc.prems(1) le] Suc.prems(1) w by (subst is_in_trie.simps) simp
  show ?case
  proof (cases node)
    case None
    then show ?thesis by (subst is_in_trie.simps) simp
  next
    case (Some n)
    then show ?thesis
      using Suc.IH [OF Suc.prems(1) le] root w by (subst is_in_trie.simps) simp
  qed
qed

lemma is_in_trie_total:
  "\<not> word_end r \<Longrightarrow> is_in_trie r node w (length w) = Some (match_from r node w)"
  using is_in_trie_take [of r "length w" w node] by simp

lemma is_in_trie_strlen:
  "\<not> word_end r \<Longrightarrow> is_in_trie r node m (strlen m) = Some (match_from r node (strdup m))"
proof -
  assume "\<not> word_end r"
  from is_in_trie_take [OF this strlen_le] show ?thesis by (simp add: take_strlen)
qed

lemma insert_trie_rest:
  "offset \<le> len \<Longrightarrow> len \<le> length word \<Longrightarrow>
   insert_trie node word offset len missing =
   insert_rest node (take (len - offset) (drop offset word)) missing"
proof (induction node word offset len missing rule: insert_trie.induct)
  case (1 node word offset len missing)
  show ?case
  proof (cases "len - offset > 0")
    case False
    then show ?thesis by (subst insert_trie.simps) simp
  next
    case True
    then have lt: "offset < length word" using 1(3) by simp
    from True obtain d where d: "len - offset = Suc d" by (cases "len - offset") auto
    then have d': "len - (offset + 1) = d" by simp
    have split: "take (len - offset) (drop offset word) = word ! offset # take d (drop (offset + 1) word)"
      using lt d by (simp add: Cons_nth_drop_Suc [symmetric])
    note IH = 1(1) [OF True refl refl refl]
    show ?thesis
      using IH True 1(3) d'
      by (subst insert_trie.simps) (simp add: split strndup_eq Let_def del: drop_Suc)
  qed
qed

lemma INDEX_inj: "INDEX a = INDEX b \<longleftrightarrow> a = b"
  by (simp add: INDEX_def)

lemma stored_calloc: "stored (Some calloc_trie) w = False"
  by (cases w) (simp_all add: calloc_trie_def)

lemma stored_insert_rest:
  "stored (Some (fst (insert_rest node w ms))) v \<longleftrightarrow> stored (Some node) v \<or> v = w"
proof (induction w arbitrary: node ms v)
  case Nil
  then show ?case by (cases v) simp_all
next
  case (Cons c cs)
  show ?case
  proof (cases v)
    case Nil
    then show ?thesis by (simp add: Let_def case_prod_beta)
  next
    case (Cons d ds)
    show ?thesis
    proof (cases "children node (INDEX c)")
      case None
      then show ?thesis using Cons.IH [of calloc_trie _ ds] Cons
        by (auto simp: Let_def INDEX_inj stored_calloc case_prod_beta)
    next
      case (Some t)
      then show ?thesis using Cons.IH [of t _ ds] Cons
        by (auto simp: Let_def INDEX_inj case_prod_beta)
    qed
  qed
qed

lemma word_end_insert_rest:
  "w \<noteq> [] \<Longrightarrow> word_end (fst (insert_rest node w ms)) = word_end node"
  by (cases w) (simp_all add: Let_def case_prod_beta)

lemma missing_insert_rest:
  "set (snd (insert_rest node w ms)) =
   {strdup (drop k w) | k. k < length w \<and> stored (Some node) (take k w)} \<union> set ms"
proof (induction w arbitrary: node ms)
  case Nil
  then show ?case by simp
next
  case (Cons c cs)
  define child where "child = (case children node (INDEX c) of None \<Rightarrow> calloc_trie | Some t \<Rightarrow> t)"
  have st: "\<And>u. stored (Some child) u = stored (Some node) (c # u)"
    by (simp add: child_def stored_calloc split: option.split)
  have key: "{strdup (drop k (c # cs)) | k. k < length (c # cs) \<and> stored (Some node) (take k (c # cs))} =
    (if word_end node then {strdup (c # cs)} else {}) \<union> {strdup (drop k cs) | k. k < length cs \<and> stored (Some child) (take k cs)}"
    (is "?L = ?R")
  proof (intro set_eqI iffI)
    fix x assume "x \<in> ?L"
    then obtain k where k: "x = strdup (drop k (c # cs))" "k < length (c # cs)" "stored (Some node) (take k (c # cs))" by auto
    show "x \<in> ?R"
    proof (cases k)
      case 0
      then show ?thesis using k by simp
    next
      case (Suc j)
      then show ?thesis using k st by auto
    qed
  next
    fix x assume "x \<in> ?R"
    then consider "word_end node" "x = strdup (c # cs)" | j where "x = strdup (drop j cs)" "j < length cs" "stored (Some child) (take j cs)"
      by (auto split: if_splits)
    then show "x \<in> ?L"
    proof cases
      case 1
      then have "x = strdup (drop 0 (c # cs)) \<and> 0 < length (c # cs) \<and> stored (Some node) (take 0 (c # cs))" by simp
      then show ?thesis by blast
    next
      case 2
      then have "x = strdup (drop (Suc j) (c # cs)) \<and> Suc j < length (c # cs) \<and> stored (Some node) (take (Suc j) (c # cs))"
        using st by simp
      then show ?thesis by blast
    qed
  qed
  show ?case
    unfolding key using Cons.IH [of child]
    by (auto simp: Let_def child_def [symmetric] push_to_missing_def case_prod_beta)
qed

subsection \<open>The matcher decides segmentation\<close>

lemma in_star_Nil: "in_star D []"
  unfolding in_star_def by (rule exI [of _ "[]"]) simp

lemma in_star_app: "u \<in> D \<Longrightarrow> in_star D v \<Longrightarrow> in_star D (u @ v)"
  unfolding in_star_def
proof -
  assume "u \<in> D" "\<exists>ps. concat ps = v \<and> set ps \<subseteq> D"
  then obtain ps where "concat ps = v" "set ps \<subseteq> D" by blast
  then have "concat (u # ps) = u @ v \<and> set (u # ps) \<subseteq> D" using \<open>u \<in> D\<close> by simp
  then show "\<exists>ps. concat ps = u @ v \<and> set ps \<subseteq> D" by blast
qed

lemma in_star_Cons:
  assumes "in_star D (c # cs)" "[] \<notin> D"
  shows "\<exists>p v. cs = p @ v \<and> c # p \<in> D \<and> in_star D v"
proof -
  from assms(1) obtain ps where ps: "concat ps = c # cs" "set ps \<subseteq> D" unfolding in_star_def by blast
  then obtain q qs where q: "ps = q # qs" by (cases ps) auto
  with ps assms(2) have "q \<noteq> []" by auto
  then obtain p where p: "q = c # p" and cs: "cs = p @ concat qs" using ps q by (cases q) auto
  have "in_star D (concat qs)" unfolding in_star_def using ps q by auto
  then show ?thesis using p cs ps q by auto
qed

lemma match_from_char:
  assumes "trie_dict r D" "[] \<notin> D"
  shows "match_from r node w \<longleftrightarrow> (\<exists>u v. w = u @ v \<and> stored node u \<and> in_star D v)"
proof (induction w arbitrary: node)
  case Nil
  then show ?case by (cases node) (simp_all add: in_star_Nil)
next
  case (Cons c cs)
  show ?case
  proof (cases node)
    case None
    then show ?thesis by simp
  next
    case (Some n)
    have root: "\<And>u. stored (children r (INDEX c)) u \<longleftrightarrow> c # u \<in> D"
      using assms(1) unfolding trie_dict_def by (metis stored.simps(3))
    show ?thesis
    proof
      assume "match_from r node (c # cs)"
      then consider "match_from r (children n (INDEX c)) cs"
        | "word_end n" "match_from r (children r (INDEX c)) cs"
        using Some by auto
      then show "\<exists>u v. c # cs = u @ v \<and> stored node u \<and> in_star D v"
      proof cases
        case 1
        then obtain u v where "cs = u @ v" "stored (children n (INDEX c)) u" "in_star D v"
          using Cons.IH by blast
        then have "c # cs = (c # u) @ v \<and> stored node (c # u) \<and> in_star D v" using Some by simp
        then show ?thesis by blast
      next
        case 2
        then obtain u v where uv: "cs = u @ v" "stored (children r (INDEX c)) u" "in_star D v"
          using Cons.IH by blast
        then have "in_star D ((c # u) @ v)" using root in_star_app by blast
        then have "c # cs = [] @ (c # cs) \<and> stored node [] \<and> in_star D (c # cs)"
          using uv 2 Some by simp
        then show ?thesis by blast
      qed
    next
      assume "\<exists>u v. c # cs = u @ v \<and> stored node u \<and> in_star D v"
      then obtain u v where uv: "c # cs = u @ v" "stored node u" "in_star D v" by blast
      show "match_from r node (c # cs)"
      proof (cases u)
        case Nil
        then have "in_star D (c # cs)" "word_end n" using uv Some by auto
        then obtain p v' where "cs = p @ v'" "c # p \<in> D" "in_star D v'"
          using in_star_Cons assms(2) by blast
        then have "match_from r (children r (INDEX c)) cs" using Cons.IH root by blast
        then show ?thesis using \<open>word_end n\<close> Some by simp
      next
        case (Cons d u')
        then have "cs = u' @ v" "stored (children n (INDEX c)) u'" using uv Some by auto
        then have "match_from r (children n (INDEX c)) cs" using Cons.IH uv(3) by blast
        then show ?thesis using Some by simp
      qed
    qed
  qed
qed

lemma match_from_root:
  assumes "trie_dict r D" "[] \<notin> D"
  shows "match_from r (Some r) w \<longleftrightarrow>
    (\<exists>ps. ps \<noteq> [] \<and> concat ps = w \<and> (\<forall>p\<in>set ps. p \<noteq> [] \<and> p \<in> D))"
proof
  assume "match_from r (Some r) w"
  then obtain u v where uv: "w = u @ v" "stored (Some r) u" "in_star D v"
    using match_from_char [OF assms] by blast
  then obtain ps where ps: "concat ps = v" "set ps \<subseteq> D" unfolding in_star_def by blast
  have "u \<in> D" using uv assms(1) unfolding trie_dict_def by simp
  then have "u # ps \<noteq> [] \<and> concat (u # ps) = w \<and> (\<forall>p\<in>set (u # ps). p \<noteq> [] \<and> p \<in> D)"
    using ps uv assms(2) by auto
  then show "\<exists>ps. ps \<noteq> [] \<and> concat ps = w \<and> (\<forall>p\<in>set ps. p \<noteq> [] \<and> p \<in> D)" by blast
next
  assume "\<exists>ps. ps \<noteq> [] \<and> concat ps = w \<and> (\<forall>p\<in>set ps. p \<noteq> [] \<and> p \<in> D)"
  then obtain ps where ps: "ps \<noteq> []" "concat ps = w" "\<forall>p\<in>set ps. p \<noteq> [] \<and> p \<in> D" by blast
  then obtain q qs where q: "ps = q # qs" by (cases ps) auto
  have "in_star D (concat qs)" unfolding in_star_def using ps q by auto
  moreover have "stored (Some r) q" using ps q assms(1) unfolding trie_dict_def by simp
  ultimately have "w = q @ concat qs \<and> stored (Some r) q \<and> in_star D (concat qs)" using ps q by auto
  then show "match_from r (Some r) w" using match_from_char [OF assms] by blast
qed

subsection \<open>The reading loop builds the dictionary and the pending list\<close>

lemma trie_dict_calloc: "trie_dict calloc_trie {}"
  by (simp add: trie_dict_def stored_calloc)

lemma trie_dict_root_flag: "trie_dict r D \<Longrightarrow> word_end r \<longleftrightarrow> [] \<in> D"
  unfolding trie_dict_def by (metis stored.simps(2))

lemma read_line_skip: "length line \<le> 2 \<Longrightarrow> read_line line g = g"
  by (simp add: read_line_def)

lemma read_line_root:
  "length line > 2 \<Longrightarrow>
   root (read_line line g) = fst (insert_rest (root g) (take (length line - 2) line) [])"
  by (simp add: read_line_def insert_trie_rest case_prod_beta Let_def)

lemma read_line_dict:
  assumes "trie_dict (root g) D" "length line > 2"
  shows "trie_dict (root (read_line line g)) (insert (take (length line - 2) line) D)"
  using assms unfolding trie_dict_def
  by (auto simp: read_line_root stored_insert_rest)

lemma words_of_Cons:
  "words_of (line # rest) =
   (if length line > 2 then take (length line - 2) line # words_of rest else words_of rest)"
  by (simp add: words_of_def)

lemma words_of_Nil: "words_of [] = []"
  by (simp add: words_of_def)

lemma words_of_nonempty: "[] \<notin> set (words_of lines)"
  by (auto simp: words_of_def)

lemma read_lines_dict:
  "trie_dict (root g) D \<Longrightarrow> trie_dict (root (read_lines lines g)) (D \<union> set (words_of lines))"
proof (induction lines arbitrary: g D)
  case Nil
  then show ?case by (simp add: words_of_Nil)
next
  case (Cons line rest)
  show ?case
  proof (cases "length line > 2")
    case True
    from Cons.IH [OF read_line_dict [OF Cons.prems True]]
    show ?thesis using True by (simp add: words_of_Cons)
  next
    case False
    then show ?thesis using Cons by (simp add: words_of_Cons read_line_skip)
  qed
qed

lemma final_trie_dict:
  "trie_dict (root (read_lines lines init_globals)) (set (words_of lines))"
  using read_lines_dict [of init_globals "{}" lines]
  by (simp add: init_globals_def trie_dict_calloc)

lemma final_root_flag: "\<not> word_end (root (read_lines lines init_globals))"
  using final_trie_dict trie_dict_root_flag words_of_nonempty by blast

lemma read_line_pending:
  assumes "trie_dict (root g) D" "[] \<notin> D" "length line > 2"
  shows "\<exists>ms. set ms = breaks D (take (length line - 2) line) \<and>
    pending (read_line line g) = (if ms \<noteq> [] then (strdup line, ms) # pending g else pending g)"
proof -
  define w where "w = take (length line - 2) line"
  define ms where "ms = snd (insert_rest (root g) w [])"
  have "set ms = {strdup (drop k w) | k. k < length w \<and> stored (Some (root g)) (take k w)}"
    by (simp add: ms_def missing_insert_rest)
  also have "\<dots> = breaks D w"
  proof -
    have "\<And>k. k < length w \<and> stored (Some (root g)) (take k w) \<longleftrightarrow> 0 < k \<and> k < length w \<and> take k w \<in> D"
      using assms(1,2) unfolding trie_dict_def by (case_tac k) auto
    then show ?thesis unfolding breaks_def by simp
  qed
  finally have "set ms = breaks D w" .
  moreover have "pending (read_line line g) = (if ms \<noteq> [] then (strdup line, ms) # pending g else pending g)"
    using assms(3)
    by (simp add: read_line_def insert_trie_rest case_prod_beta Let_def ms_def w_def
        push_to_pending_def)
  ultimately show ?thesis unfolding w_def by blast
qed

subsection \<open>The checking pass\<close>

lemma check_missing_total:
  assumes "\<not> word_end r"
  shows "check_missing r word ms matched rk =
    Some (if matched then (True, rk)
          else if \<exists>m\<in>set ms. match_from r (Some r) (strdup m) then (True, new_match word rk)
          else (False, rk))"
proof (induction ms arbitrary: matched rk)
  case Nil
  then show ?case by simp
next
  case (Cons m rest)
  show ?case
    using assms by (simp add: Cons.IH is_in_trie_strlen)
qed

lemma check_pending_total:
  assumes "\<not> word_end r"
  shows "check_pending r ps rk = Some (fold new_match (map fst (filter (rec_ok r) ps)) rk)"
proof (induction ps arbitrary: rk)
  case Nil
  then show ?case by simp
next
  case (Cons p rest)
  obtain word ms where p: "p = (word, ms)" by (cases p)
  show ?case
    by (simp add: p check_missing_total [OF assms] Cons.IH rec_ok_def)
qed

lemma total_new_match: "total (new_match word rk) = total rk + 1"
  by (simp add: new_match_def Let_def)

lemma total_fold_new_match: "total (fold new_match ws rk) = total rk + of_nat (length ws)"
  by (induction ws arbitrary: rk) (simp_all add: total_new_match)

lemma is_in_trie_eval:
  "\<not> word_end r \<Longrightarrow> len = length w \<Longrightarrow> is_in_trie r node w len = Some (match_from r node w)"
  by (simp add: is_in_trie_total)

lemma is_in_trie_zero: "is_in_trie r (Some n) w 0 = Some (word_end n)"
  by (subst is_in_trie.simps) simp

lemma confirmed_words_eq:
  "confirmed_words lines =
   map fst (filter (rec_ok (root (read_lines lines init_globals)))
     (pending (read_lines lines init_globals)))"
proof -
  have eq: "(\<lambda>(word, missing).
          map_option fst (check_missing (root (read_lines lines init_globals)) word missing False init_ranking) = Some True)
        = rec_ok (root (read_lines lines init_globals))"
    by (rule ext) (auto simp: check_missing_total [OF final_root_flag] rec_ok_def split: prod.split)
  show ?thesis unfolding confirmed_words_def Let_def eq by (rule refl)
qed

lemmas run_defs = main_prog_def init_globals_def read_line_def insert_trie.simps CRLF_def
  calloc_trie_def push_to_missing_def push_to_pending_def strndup_def strdup_def strlen_def
  NUL_def INDEX_def Let_def new_match_def init_ranking_def

lemmas wf_defs = wf_line_def in_alphabet_def INDEX_def NBCHAR_def CRLF_def

lemma check_missing_matched: "check_missing r word ms True rk = Some (True, rk)"
  by (induction ms) simp_all

lemma check_missing_none:
  "\<forall>m\<in>set ms. is_in_trie r (Some r) m (strlen m) = Some False \<Longrightarrow>
   check_missing r word ms False rk = Some (False, rk)"
  by (induction ms) simp_all

lemma check_missing_first:
  "\<forall>m\<in>set pre. is_in_trie r (Some r) m (strlen m) = Some False \<Longrightarrow>
   is_in_trie r (Some r) m (strlen m) = Some True \<Longrightarrow>
   check_missing r word (pre @ m # post) False rk = Some (True, new_match word rk)"
  by (induction pre) (simp_all add: check_missing_matched)

lemma check_missing_result:
  "check_missing r word ms matched rk = Some (b, rk') \<Longrightarrow>
   (if matched then b \<and> rk' = rk else if b then rk' = new_match word rk else rk' = rk)"
proof (induction ms arbitrary: matched rk)
  case Nil
  then show ?case by auto
next
  case (Cons m rest)
  show ?case
  proof (cases matched)
    case True
    then show ?thesis using Cons.prems by (simp add: check_missing_matched)
  next
    case False
    then obtain res where res: "is_in_trie r (Some r) m (strlen m) = Some res"
      using Cons.prems by (auto split: option.splits)
    show ?thesis
    proof (cases res)
      case True
      then show ?thesis using Cons.prems False res by (simp add: check_missing_matched)
    next
      case f: False
      then show ?thesis using Cons.prems False res Cons.IH [of False rk] by simp
    qed
  qed
qed

lemma main_prog_eq:
  "main_prog lines =
   (let rk = fold new_match (confirmed_words lines) init_ranking
    in Some (longest rk, oldlongest rk, total rk))"
  by (simp add: main_prog_def Let_def check_pending_total [OF final_root_flag] confirmed_words_eq)

lemma word_end_insert_trie:
  "offset < len \<Longrightarrow> word_end (fst (insert_trie node word offset len missing)) = word_end node"
  by (subst insert_trie.simps) (simp add: Let_def case_prod_beta)

lemma breaks_empty: "breaks {} w = {}"
  by (simp add: breaks_def)

lemma single_line_pending: "pending (read_line line init_globals) = []"
proof (cases "length line > 2")
  case True
  have "trie_dict (root init_globals) {}" by (simp add: init_globals_def trie_dict_calloc)
  from read_line_pending [OF this _ True] show ?thesis
    by (auto simp: breaks_empty init_globals_def)
next
  case False
  then show ?thesis by (simp add: read_line_skip init_globals_def)
qed

subsection \<open>Which lines are confirmed\<close>

lemma breaks_strdup: "m \<in> breaks D w \<Longrightarrow> strdup m = m"
  unfolding breaks_def by (auto simp: strdup_idem)

lemma pending_cands:
  assumes "trie_dict (root g) D" "[] \<notin> D"
  shows "map fst (filter (\<lambda>rec. \<exists>m\<in>set (snd rec). P (strdup m)) (pending (read_lines ls g))) =
         cands P D ls @ map fst (filter (\<lambda>rec. \<exists>m\<in>set (snd rec). P (strdup m)) (pending g))"
  using assms
proof (induction ls arbitrary: g D)
  case Nil
  then show ?case by simp
next
  case (Cons line rest)
  show ?case
  proof (cases "length line > 2")
    case False
    then show ?thesis using Cons by (simp add: read_line_skip)
  next
    case True
    define w where "w = take (length line - 2) line"
    have wne: "w \<noteq> []" using True by (auto simp: w_def)
    have d': "trie_dict (root (read_line line g)) (insert w D)"
      unfolding w_def by (rule read_line_dict [OF Cons.prems(1) True])
    have n': "[] \<notin> insert w D" using wne Cons.prems(2) by auto
    obtain ms where ms: "set ms = breaks D w"
      "pending (read_line line g) = (if ms \<noteq> [] then (strdup line, ms) # pending g else pending g)"
      using read_line_pending [OF Cons.prems True] unfolding w_def by blast
    have same: "(\<exists>m\<in>set ms. P (strdup m)) \<longleftrightarrow> (\<exists>m\<in>breaks D w. P m)"
      unfolding ms(1) using breaks_strdup [of _ D w] by auto
    have head: "map fst (filter (\<lambda>rec. \<exists>m\<in>set (snd rec). P (strdup m)) (pending (read_line line g))) =
      (if \<exists>m\<in>breaks D w. P m then [strdup line] else []) @
      map fst (filter (\<lambda>rec. \<exists>m\<in>set (snd rec). P (strdup m)) (pending g))"
    proof (cases "ms = []")
      case True
      then have "breaks D w = {}" using ms(1) by simp
      then show ?thesis using True ms(2) by simp
    next
      case False
      then show ?thesis using ms(2) same by simp
    qed
    show ?thesis
      using Cons.IH [OF d' n'] True by (simp add: head w_def [symmetric])
  qed
qed

lemma match_from_segmented:
  "match_from (root (read_lines lines init_globals)) (Some (root (read_lines lines init_globals))) =
   segmented (set (words_of lines))"
  by (rule ext) (simp add: segmented_def match_from_root [OF final_trie_dict words_of_nonempty])

lemma confirmed_words_cands:
  "confirmed_words lines = cands (segmented (set (words_of lines))) {} lines"
proof -
  have "trie_dict (root init_globals) {}" by (simp add: init_globals_def trie_dict_calloc)
  from pending_cands [OF this, of "segmented (set (words_of lines))" lines]
  have "map fst (filter (\<lambda>rec. \<exists>m\<in>set (snd rec). segmented (set (words_of lines)) (strdup m))
          (pending (read_lines lines init_globals))) =
        cands (segmented (set (words_of lines))) {} lines"
    by (simp add: init_globals_def)
  then show ?thesis
    by (simp add: confirmed_words_eq rec_ok_def [abs_def] match_from_segmented)
qed

lemma breaks_mono: "D \<subseteq> E \<Longrightarrow> breaks D w \<subseteq> breaks E w"
  unfolding breaks_def by blast

lemma cands_sound:
  "sw \<in> set (cands P D ls) \<Longrightarrow>
   \<exists>line\<in>set ls. sw = strdup line \<and> length line > 2 \<and>
     (\<exists>m\<in>breaks (D \<union> set (words_of ls)) (take (length line - 2) line). P m)"
proof (induction ls arbitrary: D)
  case Nil
  then show ?case by simp
next
  case (Cons l rest)
  show ?case
  proof (cases "length l > 2")
    case False
    then show ?thesis using Cons by (auto simp: words_of_Cons)
  next
    case True
    define w where "w = take (length l - 2) l"
    from Cons.prems True consider "sw \<in> set (cands P (insert w D) rest)"
      | "sw = strdup l" "\<exists>m\<in>breaks D w. P m"
      by (auto simp: w_def split: if_splits)
    then show ?thesis
    proof cases
      case 1
      from Cons.IH [OF 1] show ?thesis using True by (simp add: words_of_Cons w_def)
    next
      case 2
      have "breaks D w \<subseteq> breaks (D \<union> set (words_of (l # rest))) w"
        by (rule breaks_mono) simp
      then have "\<exists>m\<in>breaks (D \<union> set (words_of (l # rest))) w. P m" using 2(2) by blast
      then show ?thesis using 2(1) True unfolding w_def by auto
    qed
  qed
qed


lemma strict_prefix_take: "k < length w \<Longrightarrow> strict_prefix (take k w) w"
  by (metis append_take_drop_id drop_eq_Nil leD strict_prefixI' neq_Nil_conv prefixI strict_prefix_def)

lemma breaks_no_prefix:
  assumes "\<forall>v\<in>E. \<not> strict_prefix v w"
  shows "breaks (D \<union> E) w = breaks D w"
proof -
  have "\<And>k. k < length w \<Longrightarrow> take k w \<in> D \<union> E \<longleftrightarrow> take k w \<in> D"
    using assms strict_prefix_take by blast
  then show ?thesis unfolding breaks_def by metis
qed

lemma cands_prefix_first:
  "prefix_first (words_of ls) \<Longrightarrow>
   cands P D ls =
   rev (map strdup (filter (\<lambda>line. length line > 2 \<and>
          (\<exists>m\<in>breaks (D \<union> set (words_of ls)) (take (length line - 2) line). P m)) ls))"
proof (induction ls arbitrary: D)
  case Nil
  then show ?case by simp
next
  case (Cons l rest)
  show ?case
  proof (cases "length l > 2")
    case False
    then show ?thesis using Cons by (simp add: words_of_Cons)
  next
    case True
    define w where "w = take (length l - 2) l"
    have wo: "words_of (l # rest) = w # words_of rest" using True by (simp add: words_of_Cons w_def)
    have pf: "prefix_first (words_of rest)" and np: "\<forall>v\<in>set (words_of rest). \<not> strict_prefix v w"
      using Cons.prems unfolding wo by (simp_all add: list_all_iff)
    have "\<forall>v\<in>insert w (set (words_of rest)). \<not> strict_prefix v w" using np by auto
    from breaks_no_prefix [OF this, of D]
    have hd: "breaks (D \<union> set (words_of (l # rest))) w = breaks D w" by (simp add: wo)
    have un: "D \<union> set (words_of (l # rest)) = insert w D \<union> set (words_of rest)" by (simp add: wo)
    show ?thesis
      using Cons.IH [OF pf, of "insert w D"] True hd
      unfolding un [symmetric] by (simp add: w_def [symmetric])
  qed
qed

subsection \<open>The ranking after the pass\<close>

lemma lens_new_match:
  "(longest_len (new_match w rk), oldlongest_len (new_match w rk)) =
   top2 (strlen w) (longest_len rk, oldlongest_len rk)"
  by (simp add: new_match_def Let_def)

lemma lens_fold:
  "(longest_len (fold new_match ws rk), oldlongest_len (fold new_match ws rk)) =
   fold top2 (map strlen ws) (longest_len rk, oldlongest_len rk)"
proof (induction ws arbitrary: rk)
  case Nil
  then show ?case by simp
next
  case (Cons w ws)
  show ?case using Cons.IH [of "new_match w rk"] lens_new_match [of w rk] by simp
qed

lemma top2_commute: "top2 a \<circ> top2 b = top2 b \<circ> top2 a"
proof (rule ext)
  fix p :: "nat \<times> nat"
  obtain x y where "p = (x, y)" by (cases p)
  then show "(top2 a \<circ> top2 b) p = (top2 b \<circ> top2 a) p" by auto
qed

lemma lens_perm:
  assumes "mset ws1 = mset ws2"
  shows "fold top2 (map strlen ws1) p = fold top2 (map strlen ws2) p"
proof -
  have "mset (map strlen ws1) = mset (map strlen ws2)" using assms by (metis mset_map)
  then have "fold top2 (map strlen ws1) = fold top2 (map strlen ws2)"
    by (rule fold_multiset_equiv [rotated]) (rule top2_commute)
  then show ?thesis by simp
qed

lemma rank_fold:
  assumes "\<forall>w\<in>set ws. 0 < length w \<and> NUL \<notin> set w"
  shows "(ws = [] \<longrightarrow> longest (fold new_match ws init_ranking) = None) \<and>
    (ws \<noteq> [] \<longrightarrow> (\<exists>l\<in>set ws. longest (fold new_match ws init_ranking) = Some l \<and>
        longest_len (fold new_match ws init_ranking) = length l)) \<and>
    (length ws \<le> 1 \<longrightarrow> oldlongest (fold new_match ws init_ranking) = None \<and>
        oldlongest_len (fold new_match ws init_ranking) = 0) \<and>
    (2 \<le> length ws \<longrightarrow> (\<exists>s\<in>set ws. oldlongest (fold new_match ws init_ranking) = Some s \<and>
        oldlongest_len (fold new_match ws init_ranking) = length s))"
  using assms
proof (induction ws rule: rev_induct)
  case Nil
  then show ?case by (simp add: init_ranking_def)
next
  case (snoc w ws)
  define rk where "rk = fold new_match ws init_ranking"
  have step: "fold new_match (ws @ [w]) init_ranking = new_match w rk" by (simp add: rk_def)
  have pos: "0 < length w" and nf: "strlen w = length w" "strdup w = w"
    using snoc.prems by (simp_all add: strlen_id strdup_id)
  have IH: "(ws = [] \<longrightarrow> longest rk = None) \<and>
    (ws \<noteq> [] \<longrightarrow> (\<exists>l\<in>set ws. longest rk = Some l \<and> longest_len rk = length l)) \<and>
    (length ws \<le> 1 \<longrightarrow> oldlongest rk = None \<and> oldlongest_len rk = 0) \<and>
    (2 \<le> length ws \<longrightarrow> (\<exists>s\<in>set ws. oldlongest rk = Some s \<and> oldlongest_len rk = length s))"
    using snoc unfolding rk_def by simp
  have l0: "ws = [] \<Longrightarrow> longest_len rk = 0" by (simp add: rk_def init_ranking_def)
  consider "ws = []" | "length ws = 1" | "2 \<le> length ws" by (cases ws) (auto simp: Suc_le_eq)
  then show ?case
  proof cases
    case 1
    then show ?thesis using pos IH l0 unfolding step
      by (simp add: new_match_def Let_def nf)
  next
    case 2
    then have ne: "ws \<noteq> []" by auto
    then obtain l where l: "l \<in> set ws" "longest rk = Some l" "longest_len rk = length l"
      using IH by blast
    have o: "oldlongest rk = None" "oldlongest_len rk = 0" using IH 2 by simp_all
    show ?thesis unfolding step using 2 ne l o pos
      by (auto simp: new_match_def Let_def nf)
  next
    case 3
    then have ne: "ws \<noteq> []" by auto
    then obtain l where l: "l \<in> set ws" "longest rk = Some l" "longest_len rk = length l"
      using IH by blast
    obtain s where s: "s \<in> set ws" "oldlongest rk = Some s" "oldlongest_len rk = length s"
      using IH 3 by blast
    show ?thesis unfolding step using 3 ne l s pos
      by (auto simp: new_match_def Let_def nf)
  qed
qed

lemma confirmed_words_source:
  assumes "sw \<in> set (confirmed_words lines)"
  shows "\<exists>line\<in>set lines. sw = strdup line \<and> 2 < length line \<and>
    (\<exists>m\<in>breaks (set (words_of lines)) (take (length line - 2) line).
        segmented (set (words_of lines)) m)"
  using cands_sound [OF assms [unfolded confirmed_words_cands]] by simp

lemma confirmed_words_nul_free: "sw \<in> set (confirmed_words lines) \<Longrightarrow> NUL \<notin> set sw"
  using confirmed_words_source strdup_nul_free by metis

lemma strdup_line_long:
  assumes "wf_line line" and "2 < length line"
  shows "0 < length (strdup line)"
proof -
  have "take (length line - 2) line \<noteq> []" using assms(2) by auto
  then show ?thesis using strdup_line [OF assms(1)] by (metis length_greater_0_conv append_is_Nil_conv)
qed

lemma confirmed_words_pos:
  assumes "list_all wf_line lines"
  shows "\<forall>w\<in>set (confirmed_words lines). 0 < length w \<and> NUL \<notin> set w"
proof
  fix w assume w: "w \<in> set (confirmed_words lines)"
  then obtain line where l: "line \<in> set lines" "w = strdup line" "2 < length line"
    using confirmed_words_source by blast
  then have "wf_line line" using assms by (simp add: list_all_iff)
  then have "0 < length w" using l strdup_line_long by simp
  then show "0 < length w \<and> NUL \<notin> set w" using confirmed_words_nul_free [OF w] by simp
qed

lemma main_prog_total:
  "main_prog lines = Some (l, s, t) \<Longrightarrow> t = of_nat (length (confirmed_words lines))"
  by (simp add: main_prog_eq Let_def total_fold_new_match init_ranking_def)

subsection \<open>Confirmed words and their parts\<close>






subsection \<open>Reading the same lines in another order\<close>

lemma words_of_mset: "mset ls1 = mset ls2 \<Longrightarrow> set (words_of ls1) = set (words_of ls2)"
proof -
  assume a: "mset ls1 = mset ls2"
  have "mset (words_of ls1) = image_mset (\<lambda>line. take (length line - 2) line) (filter_mset (\<lambda>line. length line > 2) (mset ls1))"
    unfolding words_of_def by simp
  also have "\<dots> = mset (words_of ls2)" unfolding words_of_def a by simp
  finally show ?thesis by (rule mset_eq_setD)
qed

lemma confirmed_words_prefix_first:
  "prefix_first (words_of lines) \<Longrightarrow>
   confirmed_words lines =
   rev (map strdup (filter (\<lambda>line. length line > 2 \<and>
          (\<exists>m\<in>breaks (set (words_of lines)) (take (length line - 2) line).
              segmented (set (words_of lines)) m)) lines))"
  unfolding confirmed_words_cands by (simp add: cands_prefix_first)

lemma confirmed_words_perm:
  assumes "mset lines1 = mset lines2" "prefix_first (words_of lines1)" "prefix_first (words_of lines2)"
  shows "mset (confirmed_words lines1) = mset (confirmed_words lines2)"
proof -
  have D: "set (words_of lines1) = set (words_of lines2)" using assms(1) by (rule words_of_mset)
  show ?thesis
    unfolding confirmed_words_prefix_first [OF assms(2)] confirmed_words_prefix_first [OF assms(3)] D
    by (simp only: mset_rev mset_map mset_filter assms(1))
qed

lemma longest_fold_Nil:
  "longest (fold new_match [] init_ranking) = None"
  "oldlongest (fold new_match [] init_ranking) = None"
  by (simp_all add: init_ranking_def)

lemma longest_fold:
  assumes "\<forall>w\<in>set ws. 0 < length w \<and> NUL \<notin> set w" and "ws \<noteq> []"
  shows "\<exists>l\<in>set ws. longest (fold new_match ws init_ranking) = Some l \<and>
        longest_len (fold new_match ws init_ranking) = length l"
  using rank_fold [OF assms(1)] assms(2) by blast

lemma oldlongest_fold_short:
  assumes "\<forall>w\<in>set ws. 0 < length w \<and> NUL \<notin> set w" and "length ws \<le> 1"
  shows "oldlongest (fold new_match ws init_ranking) = None"
  using rank_fold [OF assms(1)] assms(2) by blast

lemma oldlongest_fold:
  assumes "\<forall>w\<in>set ws. 0 < length w \<and> NUL \<notin> set w" and "2 \<le> length ws"
  shows "\<exists>s\<in>set ws. oldlongest (fold new_match ws init_ranking) = Some s \<and>
        oldlongest_len (fold new_match ws init_ranking) = length s"
  using rank_fold [OF assms(1)] assms(2) by blast

lemma ranking_perm:
  assumes cm: "mset c1 = mset c2" and p1: "\<forall>w\<in>set c1. 0 < length w \<and> NUL \<notin> set w"
  defines "r1 \<equiv> fold new_match c1 init_ranking" and "r2 \<equiv> fold new_match c2 init_ranking"
  shows "map_option length (longest r1) = map_option length (longest r2)"
    and "map_option length (oldlongest r1) = map_option length (oldlongest r2)"
    and "(\<forall>x\<in>set c1. \<forall>y\<in>set c1.
            map_option length (longest r1) = Some (length x) \<and> length y = length x \<longrightarrow> x = y)
         \<Longrightarrow> longest r1 = longest r2"
    and "(\<forall>x\<in>set c1. \<forall>y\<in>set c1.
            map_option length (oldlongest r1) = Some (length x) \<and> length y = length x \<longrightarrow> x = y)
         \<Longrightarrow> oldlongest r1 = oldlongest r2"
proof -
  have len: "length c1 = length c2" using cm by (rule mset_eq_length)
  have cs: "set c1 = set c2" using cm by (rule mset_eq_setD)
  have p2: "\<forall>w\<in>set c2. 0 < length w \<and> NUL \<notin> set w" using p1 cs by simp
  have "(longest_len r1, oldlongest_len r1) = (longest_len r2, oldlongest_len r2)"
    unfolding r1_def r2_def lens_fold by (rule lens_perm [OF cm])
  then have lens: "longest_len r1 = longest_len r2" "oldlongest_len r1 = oldlongest_len r2"
    by simp_all
  have A: "map_option length (longest r1) = map_option length (longest r2) \<and>
           ((\<forall>x\<in>set c1. \<forall>y\<in>set c1.
               map_option length (longest r1) = Some (length x) \<and> length y = length x \<longrightarrow> x = y)
            \<longrightarrow> longest r1 = longest r2)"
  proof (cases "c1 = []")
    case True
    then have "c2 = []" using len by simp
    then show ?thesis using True unfolding r1_def r2_def by (simp add: longest_fold_Nil)
  next
    case False
    then have ne2: "c2 \<noteq> []" using len by auto
    obtain x where x: "x \<in> set c1" "longest r1 = Some x" "longest_len r1 = length x"
      using longest_fold [OF p1 False] unfolding r1_def by blast
    obtain y where y: "y \<in> set c2" "longest r2 = Some y" "longest_len r2 = length y"
      using longest_fold [OF p2 ne2] unfolding r2_def by blast
    have eq: "length y = length x" using x y lens by simp
    have "x = y" if tie: "\<forall>x\<in>set c1. \<forall>y\<in>set c1.
               map_option length (longest r1) = Some (length x) \<and> length y = length x \<longrightarrow> x = y"
    proof -
      have "y \<in> set c1" using y(1) cs by simp
      moreover have "map_option length (longest r1) = Some (length x)" using x(2) by simp
      ultimately show ?thesis using tie x(1) eq by blast
    qed
    then show ?thesis using x y eq by simp
  qed
  have B: "map_option length (oldlongest r1) = map_option length (oldlongest r2) \<and>
           ((\<forall>x\<in>set c1. \<forall>y\<in>set c1.
               map_option length (oldlongest r1) = Some (length x) \<and> length y = length x \<longrightarrow> x = y)
            \<longrightarrow> oldlongest r1 = oldlongest r2)"
  proof (cases "length c1 \<le> 1")
    case True
    then have "length c2 \<le> 1" using len by simp
    then show ?thesis
      using oldlongest_fold_short [OF p1 True] oldlongest_fold_short [OF p2] unfolding r1_def r2_def
      by simp
  next
    case False
    then have g1: "2 \<le> length c1" and g2: "2 \<le> length c2" using len by simp_all
    obtain x where x: "x \<in> set c1" "oldlongest r1 = Some x" "oldlongest_len r1 = length x"
      using oldlongest_fold [OF p1 g1] unfolding r1_def by blast
    obtain y where y: "y \<in> set c2" "oldlongest r2 = Some y" "oldlongest_len r2 = length y"
      using oldlongest_fold [OF p2 g2] unfolding r2_def by blast
    have eq: "length y = length x" using x y lens by simp
    have "x = y" if tie: "\<forall>x\<in>set c1. \<forall>y\<in>set c1.
               map_option length (oldlongest r1) = Some (length x) \<and> length y = length x \<longrightarrow> x = y"
    proof -
      have "y \<in> set c1" using y(1) cs by simp
      moreover have "map_option length (oldlongest r1) = Some (length x)" using x(2) by simp
      ultimately show ?thesis using tie x(1) eq by blast
    qed
    then show ?thesis using x y eq by simp
  qed
  show "map_option length (longest r1) = map_option length (longest r2)" using A by simp
  show "map_option length (oldlongest r1) = map_option length (oldlongest r2)" using B by simp
  show "(\<forall>x\<in>set c1. \<forall>y\<in>set c1.
            map_option length (longest r1) = Some (length x) \<and> length y = length x \<longrightarrow> x = y)
         \<Longrightarrow> longest r1 = longest r2" using A by blast
  show "(\<forall>x\<in>set c1. \<forall>y\<in>set c1.
            map_option length (oldlongest r1) = Some (length x) \<and> length y = length x \<longrightarrow> x = y)
         \<Longrightarrow> oldlongest r1 = oldlongest r2" using B by blast
qed

lemma main_prog_fold:
  "main_prog lines =
   Some (longest (fold new_match (confirmed_words lines) init_ranking),
         oldlongest (fold new_match (confirmed_words lines) init_ranking),
         of_nat (length (confirmed_words lines)))"
  by (simp add: main_prog_eq Let_def total_fold_new_match init_ranking_def)

lemma pending_nul_free:
  "\<forall>p\<in>set (pending g). NUL \<notin> set (fst p) \<Longrightarrow>
   \<forall>p\<in>set (pending (read_lines lines g)). NUL \<notin> set (fst p)"
proof (induction lines arbitrary: g)
  case Nil
  then show ?case by simp
next
  case (Cons line rest)
  have "\<forall>p\<in>set (pending (read_line line g)). NUL \<notin> set (fst p)"
    using Cons.prems
    by (auto simp: read_line_def Let_def case_prod_beta push_to_pending_def strdup_nul_free)
  then show ?case using Cons.IH by simp
qed

text \<open>
  A line that ends in a NUL byte and a line feed is stored up to the NUL: its word "aaa" is
  ranked with length 3, behind "bb" stored with its line ending.
\<close>

lemma stored_word_stops_at_nul:
  "main_prog [''a'' @ CRLF, ''b'' @ CRLF, ''aaa'' @ [NUL, CHR 0x0A], ''bb'' @ CRLF] =
     Some (Some (''bb'' @ CRLF), Some ''aaa'', 2)"
  by (simp add: run_defs is_in_trie_eval)

text \<open>
  With "aaaa" before a NUL byte both stored words have length 4, and the two orders print
  them in different slots.
\<close>

lemma stored_words_tie_at_nul:
  "main_prog [''a'' @ CRLF, ''b'' @ CRLF, ''aaaa'' @ [NUL, CHR 0x0A], ''bb'' @ CRLF] =
     Some (Some (''bb'' @ CRLF), Some ''aaaa'', 2)"
  "main_prog [''a'' @ CRLF, ''b'' @ CRLF, ''bb'' @ CRLF, ''aaaa'' @ [NUL, CHR 0x0A]] =
     Some (Some ''aaaa'', Some (''bb'' @ CRLF), 2)"
  by (simp_all add: run_defs is_in_trie_eval)

section \<open>The claims\<close>

text \<open>
  C1. On the trie that the reading loop has built from well-formed lines, and for a
  non-empty string over the alphabet, \<^verbatim>\<open>is_in_trie(root, str, strlen(str))\<close> returns, and
  returns true exactly when the string is the concatenation of one or more non-empty
  words of the dictionary. With no character left the function returns the flag of the
  node it is at.
\<close>

theorem is_in_trie_segmentation:
  assumes "list_all wf_line lines" and "in_alphabet str" and "str \<noteq> []"
  shows "is_in_trie (root (read_lines lines init_globals))
           (Some (root (read_lines lines init_globals))) str (strlen str) =
         Some (\<exists>ps. ps \<noteq> [] \<and> concat ps = str \<and>
                    (\<forall>p\<in>set ps. p \<noteq> [] \<and> p \<in> set (words_of lines)))
       \<and> (\<forall>r node rest. is_in_trie r (Some node) rest 0 = Some (word_end node))"
  using match_from_root [OF final_trie_dict words_of_nonempty, of lines str]
    in_alphabet_nul_free [OF assms(2)]
  by (simp add: strlen_id is_in_trie_total final_root_flag is_in_trie_zero)

theorem is_in_trie_segmentation_witness:
  "list_all wf_line [''cat'' @ CRLF, ''dog'' @ CRLF] \<and> in_alphabet ''catdog'' \<and> ''catdog'' \<noteq> [] \<and>
   is_in_trie (root (read_lines [''cat'' @ CRLF, ''dog'' @ CRLF] init_globals))
     (Some (root (read_lines [''cat'' @ CRLF, ''dog'' @ CRLF] init_globals)))
     ''catdog'' (strlen ''catdog'') =
   Some (\<exists>ps. ps \<noteq> [] \<and> concat ps = ''catdog'' \<and>
              (\<forall>p\<in>set ps. p \<noteq> [] \<and> p \<in> set (words_of [''cat'' @ CRLF, ''dog'' @ CRLF])))"
proof -
  have h1: "list_all wf_line [''cat'' @ CRLF, ''dog'' @ CRLF]" by (simp add: wf_defs)
  have h2: "in_alphabet ''catdog''" by (simp add: wf_defs)
  have h3: "''catdog'' \<noteq> []" by simp
  show ?thesis using is_in_trie_segmentation [OF h1 h2 h3] h1 h2 by blast
qed

text \<open>
  C7. On the lines "a", "aa", "aaa" the program prints "aaa" as the longest word, "aa" as
  the second longest and 2 as the total; both words are confirmed, and "aa" itself is
  matched as "a" followed by "a" after a restart at the root. The stored words are the
  lines as read, so each is printed with its line ending.
\<close>

theorem scenario_a_aa_aaa:
  "main_prog [''a'' @ CRLF, ''aa'' @ CRLF, ''aaa'' @ CRLF] =
     Some (Some (''aaa'' @ CRLF), Some (''aa'' @ CRLF), 2)
   \<and> confirmed_words [''a'' @ CRLF, ''aa'' @ CRLF, ''aaa'' @ CRLF] = [''aaa'' @ CRLF, ''aa'' @ CRLF]
   \<and> is_in_trie (root (read_lines [''a'' @ CRLF, ''aa'' @ CRLF, ''aaa'' @ CRLF] init_globals))
       (Some (root (read_lines [''a'' @ CRLF, ''aa'' @ CRLF, ''aaa'' @ CRLF] init_globals)))
       ''aa'' (strlen ''aa'') = Some True"
proof -
  have "main_prog [''a'' @ CRLF, ''aa'' @ CRLF, ''aaa'' @ CRLF] =
     Some (Some (''aaa'' @ CRLF), Some (''aa'' @ CRLF), 2)"
    by (simp add: run_defs is_in_trie_eval)
  moreover have "confirmed_words [''a'' @ CRLF, ''aa'' @ CRLF, ''aaa'' @ CRLF] =
      [''aaa'' @ CRLF, ''aa'' @ CRLF]"
    by (simp add: confirmed_words_eq rec_ok_def run_defs)
  moreover have "is_in_trie (root (read_lines [''a'' @ CRLF, ''aa'' @ CRLF, ''aaa'' @ CRLF] init_globals))
       (Some (root (read_lines [''a'' @ CRLF, ''aa'' @ CRLF, ''aaa'' @ CRLF] init_globals)))
       ''aa'' (strlen ''aa'') = Some True"
    by (simp add: run_defs is_in_trie_eval)
  ultimately show ?thesis by blast
qed

text \<open>
  C9. After any number of the lines read, the flag of the root is clear: \<^verbatim>\<open>insert\<close> leaves
  the flag of a node alone while characters remain (it sets the flag only where
  \<open>offset\<close> has reached \<open>len\<close>), and the loop skips a line with \<^verbatim>\<open>read <= 2\<close>.
\<close>

theorem root_never_terminates_word:
  assumes "list_all wf_line lines"
  shows "\<not> word_end (root (read_lines (take k lines) init_globals))
    \<and> (\<forall>node word offset len missing. offset < len \<longrightarrow>
          word_end (fst (insert_trie node word offset len missing)) = word_end node)
    \<and> (\<forall>line g. length line \<le> 2 \<longrightarrow> read_line line g = g)"
  by (simp add: final_root_flag word_end_insert_trie read_line_skip)

theorem root_never_terminates_word_witness:
  "list_all wf_line [''cat'' @ CRLF, CRLF, ''dog'' @ CRLF]
   \<and> \<not> word_end (root (read_lines (take 2 [''cat'' @ CRLF, CRLF, ''dog'' @ CRLF]) init_globals))
   \<and> word_end (fst (insert_trie calloc_trie ''cat'' 0 3 [])) = word_end calloc_trie
   \<and> read_line CRLF init_globals = init_globals"
proof -
  have h: "list_all wf_line [''cat'' @ CRLF, CRLF, ''dog'' @ CRLF]" by (simp add: wf_defs)
  have l: "length CRLF \<le> 2" "(0::nat) < 3" by (simp_all add: CRLF_def)
  show ?thesis using root_never_terminates_word [OF h, of 2] h l by blast
qed

text \<open>
  C8. With no line, and with a single line, the program prints no longest word, no second
  longest word and the total 0.
\<close>

theorem empty_and_single_word:
  "main_prog [] = Some (None, None, 0)
   \<and> (wf_line line \<longrightarrow> main_prog [line] = Some (None, None, 0))"
  by (simp add: main_prog_def single_line_pending) (simp add: init_globals_def init_ranking_def)

theorem empty_and_single_word_witness:
  "wf_line (''hello'' @ CRLF) \<and> main_prog [''hello'' @ CRLF] = Some (None, None, 0)"
proof -
  have h: "wf_line (''hello'' @ CRLF)" by (simp add: wf_defs)
  show ?thesis using empty_and_single_word [of "''hello'' @ CRLF"] h by blast
qed

text \<open>
  C4. When the inner loop confirms a word, the ranking changes as follows. A word longer
  than the longest becomes the longest and the former longest, with its length, the second
  longest. Otherwise a word longer than the second longest becomes the second longest.
  Otherwise nothing is replaced. A word as long as the longest never replaces it, and,
  the second longest being no longer than the longest, a word as long as the second
  longest never replaces that one. A slot receives \<^verbatim>\<open>strdup\<close> of the word; the words of
  the pending list hold no NUL byte, so for them the copy is the word and \<^verbatim>\<open>strlen\<close> its
  length.
\<close>

theorem confirmed_word_updates_ranking:
  assumes "check_missing r word ms False rk = Some (True, rk')"
  shows "(strlen word > longest_len rk \<longrightarrow>
            longest rk' = Some (strdup word) \<and> longest_len rk' = strlen word \<and>
            oldlongest rk' = longest rk \<and> oldlongest_len rk' = longest_len rk)
     \<and> (\<not> strlen word > longest_len rk \<and> strlen word > oldlongest_len rk \<longrightarrow>
            oldlongest rk' = Some (strdup word) \<and> oldlongest_len rk' = strlen word \<and>
            longest rk' = longest rk \<and> longest_len rk' = longest_len rk)
     \<and> (\<not> strlen word > longest_len rk \<and> \<not> strlen word > oldlongest_len rk \<longrightarrow>
            longest rk' = longest rk \<and> longest_len rk' = longest_len rk \<and>
            oldlongest rk' = oldlongest rk \<and> oldlongest_len rk' = oldlongest_len rk)
     \<and> (strlen word = longest_len rk \<longrightarrow> longest rk' = longest rk)
     \<and> (oldlongest_len rk \<le> longest_len rk \<and> strlen word = oldlongest_len rk \<longrightarrow>
            oldlongest rk' = oldlongest rk)
     \<and> (oldlongest_len rk \<le> longest_len rk \<longrightarrow> oldlongest_len rk' \<le> longest_len rk')
     \<and> (NUL \<notin> set word \<longrightarrow> strdup word = word \<and> strlen word = length word)
     \<and> (\<forall>lines. \<forall>p\<in>set (pending (read_lines lines init_globals)). NUL \<notin> set (fst p))"
proof -
  have "rk' = new_match word rk" using check_missing_result [OF assms] by simp
  then have "(strlen word > longest_len rk \<longrightarrow>
            longest rk' = Some (strdup word) \<and> longest_len rk' = strlen word \<and>
            oldlongest rk' = longest rk \<and> oldlongest_len rk' = longest_len rk)
     \<and> (\<not> strlen word > longest_len rk \<and> strlen word > oldlongest_len rk \<longrightarrow>
            oldlongest rk' = Some (strdup word) \<and> oldlongest_len rk' = strlen word \<and>
            longest rk' = longest rk \<and> longest_len rk' = longest_len rk)
     \<and> (\<not> strlen word > longest_len rk \<and> \<not> strlen word > oldlongest_len rk \<longrightarrow>
            longest rk' = longest rk \<and> longest_len rk' = longest_len rk \<and>
            oldlongest rk' = oldlongest rk \<and> oldlongest_len rk' = oldlongest_len rk)
     \<and> (strlen word = longest_len rk \<longrightarrow> longest rk' = longest rk)
     \<and> (oldlongest_len rk \<le> longest_len rk \<and> strlen word = oldlongest_len rk \<longrightarrow>
            oldlongest rk' = oldlongest rk)
     \<and> (oldlongest_len rk \<le> longest_len rk \<longrightarrow> oldlongest_len rk' \<le> longest_len rk')"
    by (simp add: new_match_def Let_def)
  moreover have "NUL \<notin> set word \<longrightarrow> strdup word = word \<and> strlen word = length word"
    by (simp add: strdup_id strlen_id)
  moreover have "\<forall>lines. \<forall>p\<in>set (pending (read_lines lines init_globals)). NUL \<notin> set (fst p)"
    using pending_nul_free [of init_globals] by (simp add: init_globals_def)
  ultimately show ?thesis by blast
qed

theorem confirmed_word_updates_ranking_witness:
  "check_missing (root (read_lines [''a'' @ CRLF, ''aa'' @ CRLF] init_globals)) (''aa'' @ CRLF) [''a''] False
     init_ranking = Some (True, new_match (''aa'' @ CRLF) init_ranking)
   \<and> longest (new_match (''aa'' @ CRLF) init_ranking) = Some (''aa'' @ CRLF)
   \<and> oldlongest (new_match (''aa'' @ CRLF) init_ranking) = longest init_ranking
   \<and> check_missing (root (read_lines [''a'' @ CRLF, ''aa'' @ CRLF] init_globals)) (''aa'' @ CRLF) [''a''] False
     \<lparr>longest = Some (''bbb'' @ CRLF), longest_len = 5, oldlongest = None, oldlongest_len = 0, total = 1\<rparr>
     = Some (True, \<lparr>longest = Some (''bbb'' @ CRLF), longest_len = 5, oldlongest = Some (''aa'' @ CRLF),
           oldlongest_len = 4, total = 2\<rparr>)
   \<and> check_missing (root (read_lines [''a'' @ CRLF, ''aa'' @ CRLF] init_globals)) (''aa'' @ CRLF) [''a''] False
     \<lparr>longest = Some (''bbb'' @ CRLF), longest_len = 5, oldlongest = Some (''cc'' @ CRLF), oldlongest_len = 4, total = 2\<rparr>
     = Some (True, \<lparr>longest = Some (''bbb'' @ CRLF), longest_len = 5, oldlongest = Some (''cc'' @ CRLF),
           oldlongest_len = 4, total = 3\<rparr>)
   \<and> check_missing (root (read_lines [''a'' @ CRLF, ''aa'' @ CRLF] init_globals)) (''aa'' @ CRLF) [''a''] False
     \<lparr>longest = Some (''bb'' @ CRLF), longest_len = 4, oldlongest = None, oldlongest_len = 0, total = 1\<rparr>
     = Some (True, \<lparr>longest = Some (''bb'' @ CRLF), longest_len = 4, oldlongest = Some (''aa'' @ CRLF),
           oldlongest_len = 4, total = 2\<rparr>)"
proof -
  let ?r = "root (read_lines [''a'' @ CRLF, ''aa'' @ CRLF] init_globals)"
  let ?w = "''aa'' @ CRLF"
  have h1: "check_missing ?r ?w [''a''] False init_ranking = Some (True, new_match ?w init_ranking)"
    by (simp add: run_defs is_in_trie_eval)
  have h2: "check_missing ?r ?w [''a''] False
     \<lparr>longest = Some (''bbb'' @ CRLF), longest_len = 5, oldlongest = None, oldlongest_len = 0, total = 1\<rparr>
     = Some (True, \<lparr>longest = Some (''bbb'' @ CRLF), longest_len = 5, oldlongest = Some (''aa'' @ CRLF),
           oldlongest_len = 4, total = 2\<rparr>)"
    by (simp add: run_defs is_in_trie_eval)
  have h3: "check_missing ?r ?w [''a''] False
     \<lparr>longest = Some (''bbb'' @ CRLF), longest_len = 5, oldlongest = Some (''cc'' @ CRLF), oldlongest_len = 4, total = 2\<rparr>
     = Some (True, \<lparr>longest = Some (''bbb'' @ CRLF), longest_len = 5, oldlongest = Some (''cc'' @ CRLF),
           oldlongest_len = 4, total = 3\<rparr>)"
    by (simp add: run_defs is_in_trie_eval)
  have h4: "check_missing ?r ?w [''a''] False
     \<lparr>longest = Some (''bb'' @ CRLF), longest_len = 4, oldlongest = None, oldlongest_len = 0, total = 1\<rparr>
     = Some (True, \<lparr>longest = Some (''bb'' @ CRLF), longest_len = 4, oldlongest = Some (''aa'' @ CRLF),
           oldlongest_len = 4, total = 2\<rparr>)"
    by (simp add: run_defs is_in_trie_eval)
  show ?thesis
    using confirmed_word_updates_ranking [OF h1, THEN conjunct1]
      confirmed_word_updates_ranking [OF h2, THEN conjunct1]
      confirmed_word_updates_ranking [OF h3, THEN conjunct1]
      confirmed_word_updates_ranking [OF h4, THEN conjunct1] h1 h2 h3 h4
    by (simp add: init_ranking_def strlen_def strdup_def NUL_def CRLF_def)
qed

text \<open>
  C5. For one pending record: if \<^verbatim>\<open>is_in_trie\<close> fails on the suffixes before \<open>m\<close> and
  succeeds on \<open>m\<close>, the word is confirmed there and the total grows by exactly one,
  whatever suffixes follow; if it fails on every suffix, the ranking and the total are
  left as they were.
\<close>

theorem first_match_counts_once:
  "((\<forall>m\<in>set pre. is_in_trie r (Some r) m (strlen m) = Some False) \<and>
     is_in_trie r (Some r) m (strlen m) = Some True \<longrightarrow>
       check_missing r word (pre @ m # post) False rk = Some (True, new_match word rk) \<and>
       total (new_match word rk) = total rk + 1)
   \<and> ((\<forall>m\<in>set ms. is_in_trie r (Some r) m (strlen m) = Some False) \<longrightarrow>
       check_missing r word ms False rk = Some (False, rk))"
  by (simp add: check_missing_first check_missing_none total_new_match)

theorem first_match_counts_once_witness:
  "is_in_trie (root (read_lines [''a'' @ CRLF, ''aa'' @ CRLF, ''aaa'' @ CRLF] init_globals))
       (Some (root (read_lines [''a'' @ CRLF, ''aa'' @ CRLF, ''aaa'' @ CRLF] init_globals)))
       ''a'' (strlen ''a'') = Some True
   \<and> is_in_trie (root (read_lines [''a'' @ CRLF, ''aa'' @ CRLF, ''aaa'' @ CRLF] init_globals))
       (Some (root (read_lines [''a'' @ CRLF, ''aa'' @ CRLF, ''aaa'' @ CRLF] init_globals)))
       ''aa'' (strlen ''aa'') = Some True
   \<and> check_missing (root (read_lines [''a'' @ CRLF, ''aa'' @ CRLF, ''aaa'' @ CRLF] init_globals))
       (''aaa'' @ CRLF) [''a'', ''aa''] False init_ranking = Some (True, new_match (''aaa'' @ CRLF) init_ranking)
   \<and> total (new_match (''aaa'' @ CRLF) init_ranking) = 1
   \<and> is_in_trie (root (read_lines [''a'' @ CRLF, ''aa'' @ CRLF, ''aaa'' @ CRLF] init_globals))
       (Some (root (read_lines [''a'' @ CRLF, ''aa'' @ CRLF, ''aaa'' @ CRLF] init_globals)))
       ''b'' (strlen ''b'') = Some False
   \<and> check_missing (root (read_lines [''a'' @ CRLF, ''aa'' @ CRLF, ''aaa'' @ CRLF] init_globals))
       (''ab'' @ CRLF) [''b''] False init_ranking = Some (False, init_ranking)"
proof -
  let ?r = "root (read_lines [''a'' @ CRLF, ''aa'' @ CRLF, ''aaa'' @ CRLF] init_globals)"
  have a: "is_in_trie ?r (Some ?r) ''a'' (strlen ''a'') = Some True"
    by (simp add: run_defs is_in_trie_eval)
  have aa: "is_in_trie ?r (Some ?r) ''aa'' (strlen ''aa'') = Some True"
    by (simp add: run_defs is_in_trie_eval)
  have b: "is_in_trie ?r (Some ?r) ''b'' (strlen ''b'') = Some False"
    by (simp add: run_defs is_in_trie_eval)
  have pre: "\<forall>m\<in>set []. is_in_trie ?r (Some ?r) m (strlen m) = Some False" by simp
  have none: "\<forall>m\<in>set [''b'']. is_in_trie ?r (Some ?r) m (strlen m) = Some False" using b by simp
  have t0: "total init_ranking = 0" by (simp add: init_ranking_def)
  show ?thesis
    using first_match_counts_once [of "[]" ?r "''a''" "''aaa'' @ CRLF" "[''aa'']" init_ranking "[''b'']"]
      first_match_counts_once [of "[]" ?r "''a''" "''ab'' @ CRLF" "[''aa'']" init_ranking "[''b'']"]
      a aa b pre none t0
    by simp
qed

text \<open>
  C10. On the lines "ca", "t", "cat", "cat" each occurrence of "cat" gets its own pending
  record and each record is confirmed: the total is 2 for one distinct confirmed word. In
  general the total is the number of confirmed records (in 32-bit arithmetic).
\<close>

theorem duplicate_word_counted_twice:
  "main_prog [''ca'' @ CRLF, ''t'' @ CRLF, ''cat'' @ CRLF, ''cat'' @ CRLF] =
     Some (Some (''cat'' @ CRLF), Some (''cat'' @ CRLF), 2)
   \<and> pending (read_lines [''ca'' @ CRLF, ''t'' @ CRLF, ''cat'' @ CRLF, ''cat'' @ CRLF] init_globals) =
       [(''cat'' @ CRLF, [''t'']), (''cat'' @ CRLF, [''t''])]
   \<and> confirmed_words [''ca'' @ CRLF, ''t'' @ CRLF, ''cat'' @ CRLF, ''cat'' @ CRLF] =
       [''cat'' @ CRLF, ''cat'' @ CRLF]
   \<and> length (remdups (confirmed_words [''ca'' @ CRLF, ''t'' @ CRLF, ''cat'' @ CRLF, ''cat'' @ CRLF])) = 1
   \<and> (\<forall>lines. list_all wf_line lines \<longrightarrow>
        (\<exists>l s. main_prog lines = Some (l, s, of_nat (length (confirmed_words lines)))))"
proof -
  let ?ls = "[''ca'' @ CRLF, ''t'' @ CRLF, ''cat'' @ CRLF, ''cat'' @ CRLF]"
  have 1: "main_prog ?ls = Some (Some (''cat'' @ CRLF), Some (''cat'' @ CRLF), 2)"
    by (simp add: run_defs is_in_trie_eval)
  have 2: "pending (read_lines ?ls init_globals) = [(''cat'' @ CRLF, [''t'']), (''cat'' @ CRLF, [''t''])]"
    by (simp add: run_defs)
  have 3: "confirmed_words ?ls = [''cat'' @ CRLF, ''cat'' @ CRLF]"
    by (simp add: confirmed_words_eq rec_ok_def run_defs)
  have 4: "length (remdups (confirmed_words ?ls)) = 1"
    unfolding 3 by simp
  have 5: "\<forall>lines. list_all wf_line lines \<longrightarrow>
        (\<exists>l s. main_prog lines = Some (l, s, of_nat (length (confirmed_words lines))))"
    by (simp add: main_prog_eq Let_def total_fold_new_match init_ranking_def)
  show ?thesis using 1 2 3 4 5 by blast
qed

theorem duplicate_word_counted_twice_witness:
  "list_all wf_line [''ca'' @ CRLF, ''t'' @ CRLF, ''cat'' @ CRLF, ''cat'' @ CRLF]
   \<and> main_prog [''ca'' @ CRLF, ''t'' @ CRLF, ''cat'' @ CRLF, ''cat'' @ CRLF] =
     Some (Some (''cat'' @ CRLF), Some (''cat'' @ CRLF),
       of_nat (length (confirmed_words [''ca'' @ CRLF, ''t'' @ CRLF, ''cat'' @ CRLF, ''cat'' @ CRLF])))"
proof -
  have h: "list_all wf_line [''ca'' @ CRLF, ''t'' @ CRLF, ''cat'' @ CRLF, ''cat'' @ CRLF]"
    by (simp add: wf_defs)
  show ?thesis using duplicate_word_counted_twice h by simp
qed




text \<open>
  C3, as stated, fails. The distinct words "cat", "dog", "catdog" have one confirmed word
  and total 1 in this order, and none and total 0 when "catdog" is read first: a break is
  recorded only where a word read earlier ends. With "a", "b", "ab", "ba" against "b", "a",
  "ba", "ab" the two words of equal length change places in the output.
\<close>

theorem insertion_order_changes_result:
  "mset [''cat'' @ CRLF, ''dog'' @ CRLF, ''catdog'' @ CRLF] =
     mset [''catdog'' @ CRLF, ''cat'' @ CRLF, ''dog'' @ CRLF]
   \<and> distinct (words_of [''cat'' @ CRLF, ''dog'' @ CRLF, ''catdog'' @ CRLF])
   \<and> main_prog [''cat'' @ CRLF, ''dog'' @ CRLF, ''catdog'' @ CRLF] = Some (Some (''catdog'' @ CRLF), None, 1)
   \<and> main_prog [''catdog'' @ CRLF, ''cat'' @ CRLF, ''dog'' @ CRLF] = Some (None, None, 0)
   \<and> confirmed_words [''cat'' @ CRLF, ''dog'' @ CRLF, ''catdog'' @ CRLF] = [''catdog'' @ CRLF]
   \<and> confirmed_words [''catdog'' @ CRLF, ''cat'' @ CRLF, ''dog'' @ CRLF] = []
   \<and> mset [''a'' @ CRLF, ''b'' @ CRLF, ''ab'' @ CRLF, ''ba'' @ CRLF] =
     mset [''b'' @ CRLF, ''a'' @ CRLF, ''ba'' @ CRLF, ''ab'' @ CRLF]
   \<and> main_prog [''a'' @ CRLF, ''b'' @ CRLF, ''ab'' @ CRLF, ''ba'' @ CRLF] =
       Some (Some (''ba'' @ CRLF), Some (''ab'' @ CRLF), 2)
   \<and> main_prog [''b'' @ CRLF, ''a'' @ CRLF, ''ba'' @ CRLF, ''ab'' @ CRLF] =
       Some (Some (''ab'' @ CRLF), Some (''ba'' @ CRLF), 2)"
proof -
  have 1: "mset [''cat'' @ CRLF, ''dog'' @ CRLF, ''catdog'' @ CRLF] =
     mset [''catdog'' @ CRLF, ''cat'' @ CRLF, ''dog'' @ CRLF]" by simp
  have 2: "distinct (words_of [''cat'' @ CRLF, ''dog'' @ CRLF, ''catdog'' @ CRLF])"
    by (simp add: words_of_def CRLF_def)
  have 3: "main_prog [''cat'' @ CRLF, ''dog'' @ CRLF, ''catdog'' @ CRLF] = Some (Some (''catdog'' @ CRLF), None, 1)"
    by (simp add: run_defs is_in_trie_eval)
  have 4: "main_prog [''catdog'' @ CRLF, ''cat'' @ CRLF, ''dog'' @ CRLF] = Some (None, None, 0)"
    by (simp add: run_defs is_in_trie_eval)
  have 5: "confirmed_words [''cat'' @ CRLF, ''dog'' @ CRLF, ''catdog'' @ CRLF] = [''catdog'' @ CRLF]"
    by (simp add: confirmed_words_eq rec_ok_def run_defs)
  have 6: "confirmed_words [''catdog'' @ CRLF, ''cat'' @ CRLF, ''dog'' @ CRLF] = []"
    by (simp add: confirmed_words_eq rec_ok_def run_defs)
  have 7: "mset [''a'' @ CRLF, ''b'' @ CRLF, ''ab'' @ CRLF, ''ba'' @ CRLF] =
     mset [''b'' @ CRLF, ''a'' @ CRLF, ''ba'' @ CRLF, ''ab'' @ CRLF]" by simp
  have 8: "main_prog [''a'' @ CRLF, ''b'' @ CRLF, ''ab'' @ CRLF, ''ba'' @ CRLF] =
       Some (Some (''ba'' @ CRLF), Some (''ab'' @ CRLF), 2)"
    by (simp add: run_defs is_in_trie_eval)
  have 9: "main_prog [''b'' @ CRLF, ''a'' @ CRLF, ''ba'' @ CRLF, ''ab'' @ CRLF] =
       Some (Some (''ab'' @ CRLF), Some (''ba'' @ CRLF), 2)"
    by (simp add: run_defs is_in_trie_eval)
  show ?thesis using 1 2 3 4 5 6 7 8 9 by blast
qed

text \<open>
  C3, amended. Take two orders of the same lines in each of which every word comes after
  the words that are its proper prefixes, as in the sorted file the usage text asks for.
  Then both runs confirm the same words, give the same total, and their longest and second
  longest outputs have the same lengths. The longest outputs are the same word unless two
  different confirmed words have the length of the longest output, and likewise the second
  longest outputs unless two different confirmed words have the length of that output.
\<close>

theorem order_independent_when_prefixes_first:
  assumes perm: "mset lines1 = mset lines2" and wf: "list_all wf_line lines1"
    and pf1: "prefix_first (words_of lines1)" and pf2: "prefix_first (words_of lines2)"
  shows "\<exists>l1 s1 l2 s2 t.
      main_prog lines1 = Some (l1, s1, t) \<and> main_prog lines2 = Some (l2, s2, t) \<and>
      mset (confirmed_words lines1) = mset (confirmed_words lines2) \<and>
      map_option length l1 = map_option length l2 \<and>
      map_option length s1 = map_option length s2 \<and>
      ((\<forall>x\<in>set (confirmed_words lines1). \<forall>y\<in>set (confirmed_words lines1).
           map_option length l1 = Some (length x) \<and> length y = length x \<longrightarrow> x = y)
         \<longrightarrow> l1 = l2) \<and>
      ((\<forall>x\<in>set (confirmed_words lines1). \<forall>y\<in>set (confirmed_words lines1).
           map_option length s1 = Some (length x) \<and> length y = length x \<longrightarrow> x = y)
         \<longrightarrow> s1 = s2)"
proof -
  have cm: "mset (confirmed_words lines1) = mset (confirmed_words lines2)"
    by (rule confirmed_words_perm [OF perm pf1 pf2])
  have len: "length (confirmed_words lines1) = length (confirmed_words lines2)"
    using cm by (rule mset_eq_length)
  note rp = ranking_perm [OF cm confirmed_words_pos [OF wf]]
  show ?thesis
    apply (rule exI [of _ "longest (fold new_match (confirmed_words lines1) init_ranking)"])
    apply (rule exI [of _ "oldlongest (fold new_match (confirmed_words lines1) init_ranking)"])
    apply (rule exI [of _ "longest (fold new_match (confirmed_words lines2) init_ranking)"])
    apply (rule exI [of _ "oldlongest (fold new_match (confirmed_words lines2) init_ranking)"])
    apply (rule exI [of _ "of_nat (length (confirmed_words lines1))"])
    apply (intro conjI impI)
          apply (rule main_prog_fold)
         apply (simp only: len main_prog_fold)
        apply (rule cm)
       apply (rule rp(1))
      apply (rule rp(2))
     apply (erule rp(3))
    apply (erule rp(4))
    done
qed

theorem order_independent_when_prefixes_first_witness:
  "mset [''a'' @ CRLF, ''b'' @ CRLF, ''ab'' @ CRLF, ''ba'' @ CRLF, ''aab'' @ CRLF, ''aaab'' @ CRLF] =
     mset [''b'' @ CRLF, ''a'' @ CRLF, ''ba'' @ CRLF, ''ab'' @ CRLF, ''aab'' @ CRLF, ''aaab'' @ CRLF]
   \<and> list_all wf_line [''a'' @ CRLF, ''b'' @ CRLF, ''ab'' @ CRLF, ''ba'' @ CRLF, ''aab'' @ CRLF, ''aaab'' @ CRLF]
   \<and> prefix_first (words_of [''a'' @ CRLF, ''b'' @ CRLF, ''ab'' @ CRLF, ''ba'' @ CRLF, ''aab'' @ CRLF, ''aaab'' @ CRLF])
   \<and> prefix_first (words_of [''b'' @ CRLF, ''a'' @ CRLF, ''ba'' @ CRLF, ''ab'' @ CRLF, ''aab'' @ CRLF, ''aaab'' @ CRLF])
   \<and> confirmed_words [''a'' @ CRLF, ''b'' @ CRLF, ''ab'' @ CRLF, ''ba'' @ CRLF, ''aab'' @ CRLF, ''aaab'' @ CRLF] =
       [''aaab'' @ CRLF, ''aab'' @ CRLF, ''ba'' @ CRLF, ''ab'' @ CRLF]
   \<and> main_prog [''a'' @ CRLF, ''b'' @ CRLF, ''ab'' @ CRLF, ''ba'' @ CRLF, ''aab'' @ CRLF, ''aaab'' @ CRLF] =
       Some (Some (''aaab'' @ CRLF), Some (''aab'' @ CRLF), 4)
   \<and> main_prog [''b'' @ CRLF, ''a'' @ CRLF, ''ba'' @ CRLF, ''ab'' @ CRLF, ''aab'' @ CRLF, ''aaab'' @ CRLF] =
       Some (Some (''aaab'' @ CRLF), Some (''aab'' @ CRLF), 4)
   \<and> mset (confirmed_words [''a'' @ CRLF, ''b'' @ CRLF, ''ab'' @ CRLF, ''ba'' @ CRLF, ''aab'' @ CRLF, ''aaab'' @ CRLF]) =
     mset (confirmed_words [''b'' @ CRLF, ''a'' @ CRLF, ''ba'' @ CRLF, ''ab'' @ CRLF, ''aab'' @ CRLF, ''aaab'' @ CRLF])"
proof -
  let ?L1 = "[''a'' @ CRLF, ''b'' @ CRLF, ''ab'' @ CRLF, ''ba'' @ CRLF, ''aab'' @ CRLF, ''aaab'' @ CRLF]"
  let ?L2 = "[''b'' @ CRLF, ''a'' @ CRLF, ''ba'' @ CRLF, ''ab'' @ CRLF, ''aab'' @ CRLF, ''aaab'' @ CRLF]"
  have h1: "mset ?L1 = mset ?L2" by simp
  have h2: "list_all wf_line ?L1" by (simp add: wf_defs)
  have h3: "prefix_first (words_of ?L1)" by (simp add: words_of_def CRLF_def)
  have h4: "prefix_first (words_of ?L2)" by (simp add: words_of_def CRLF_def)
  have c: "confirmed_words ?L1 = [''aaab'' @ CRLF, ''aab'' @ CRLF, ''ba'' @ CRLF, ''ab'' @ CRLF]"
    by (simp add: confirmed_words_eq rec_ok_def run_defs)
  have m1: "main_prog ?L1 = Some (Some (''aaab'' @ CRLF), Some (''aab'' @ CRLF), 4)"
    by (simp add: run_defs is_in_trie_eval)
  obtain l1 s1 l2 s2 t where
    r1: "main_prog ?L1 = Some (l1, s1, t)" and r2: "main_prog ?L2 = Some (l2, s2, t)" and
    cm: "mset (confirmed_words ?L1) = mset (confirmed_words ?L2)" and
    tl: "(\<forall>x\<in>set (confirmed_words ?L1). \<forall>y\<in>set (confirmed_words ?L1).
           map_option length l1 = Some (length x) \<and> length y = length x \<longrightarrow> x = y)
         \<longrightarrow> l1 = l2" and
    ts: "(\<forall>x\<in>set (confirmed_words ?L1). \<forall>y\<in>set (confirmed_words ?L1).
           map_option length s1 = Some (length x) \<and> length y = length x \<longrightarrow> x = y)
         \<longrightarrow> s1 = s2"
    using order_independent_when_prefixes_first [OF h1 h2 h3 h4] by blast
  have l1: "l1 = Some (''aaab'' @ CRLF)" and s1: "s1 = Some (''aab'' @ CRLF)" and t: "t = 4"
    using r1 m1 by simp_all
  have "l1 = l2" using tl unfolding c l1 by (simp add: CRLF_def)
  moreover have "s1 = s2" using ts unfolding c s1 by (simp add: CRLF_def)
  ultimately have m2: "main_prog ?L2 = Some (Some (''aaab'' @ CRLF), Some (''aab'' @ CRLF), 4)"
    using r2 l1 s1 t by simp
  show ?thesis using h1 h2 h3 h4 c m1 m2 cm by blast
qed

text \<open>
  C6, as stated, fails: no well-formed input leaves the second slot empty with two or more
  words confirmed. The first confirmed word fills the longest slot, and the next one is either
  longer, which moves the first into the second slot, or longer than the initial second
  length 0, which puts it there itself.
\<close>

theorem second_slot_empty_needs_at_most_one:
  "\<not> (\<exists>lines l t. list_all wf_line lines \<and> main_prog lines = Some (l, None, t) \<and>
        (2 \<le> unat t \<or> 2 \<le> length (confirmed_words lines)))"
proof
  assume "\<exists>lines l t. list_all wf_line lines \<and> main_prog lines = Some (l, None, t) \<and>
        (2 \<le> unat t \<or> 2 \<le> length (confirmed_words lines))"
  then obtain lines l t where wf: "list_all wf_line lines"
    and run: "main_prog lines = Some (l, None, t)"
    and two: "2 \<le> unat t \<or> 2 \<le> length (confirmed_words lines)" by blast
  have none: "oldlongest (fold new_match (confirmed_words lines) init_ranking) = None"
    using run by (simp add: main_prog_eq Let_def)
  have short: "length (confirmed_words lines) \<le> 1"
  proof (rule ccontr)
    assume "\<not> length (confirmed_words lines) \<le> 1"
    then have "2 \<le> length (confirmed_words lines)" by simp
    then show False using rank_fold [OF confirmed_words_pos [OF wf]] none by auto
  qed
  have "t = of_nat (length (confirmed_words lines))" using run by (rule main_prog_total)
  then have "unat t \<le> 1" using short
    by (cases "length (confirmed_words lines)") (auto simp: unat_of_nat)
  then show False using two short by simp
qed

text \<open>
  C6, amended. The second slot is empty exactly when at most one word is confirmed, and
  the first exactly when none is: whenever two or more words are confirmed, the program
  prints a confirmed word in both slots.
\<close>

theorem second_slot_filled_from_two_words:
  assumes "list_all wf_line lines"
  shows "\<exists>l s. main_prog lines = Some (l, s, of_nat (length (confirmed_words lines)))
        \<and> (s = None \<longleftrightarrow> length (confirmed_words lines) \<le> 1)
        \<and> (l = None \<longleftrightarrow> confirmed_words lines = [])
        \<and> (\<forall>x. l = Some x \<longrightarrow> x \<in> set (confirmed_words lines))
        \<and> (\<forall>x. s = Some x \<longrightarrow> x \<in> set (confirmed_words lines))"
proof -
  define c where "c = confirmed_words lines"
  define rk where "rk = fold new_match c init_ranking"
  have pos: "\<forall>w\<in>set c. 0 < length w \<and> NUL \<notin> set w"
    unfolding c_def by (rule confirmed_words_pos [OF assms])
  have run: "main_prog lines = Some (longest rk, oldlongest rk, of_nat (length c))"
    unfolding rk_def c_def by (rule main_prog_fold)
  have l: "longest rk = None \<longleftrightarrow> c = []"
  proof (cases "c = []")
    case True
    then show ?thesis unfolding rk_def by (simp add: init_ranking_def)
  next
    case False
    then show ?thesis using longest_fold [OF pos False] unfolding rk_def by auto
  qed
  have s: "oldlongest rk = None \<longleftrightarrow> length c \<le> 1"
  proof (cases "length c \<le> 1")
    case True
    then show ?thesis using oldlongest_fold_short [OF pos True] unfolding rk_def by simp
  next
    case False
    then have "2 \<le> length c" by simp
    then show ?thesis using oldlongest_fold [OF pos] False unfolding rk_def by auto
  qed
  have lm: "\<forall>x. longest rk = Some x \<longrightarrow> x \<in> set c"
  proof (intro allI impI)
    fix x assume a: "longest rk = Some x"
    then have "c \<noteq> []" using l by auto
    then show "x \<in> set c" using longest_fold [OF pos] a unfolding rk_def by auto
  qed
  have sm: "\<forall>x. oldlongest rk = Some x \<longrightarrow> x \<in> set c"
  proof (intro allI impI)
    fix x assume a: "oldlongest rk = Some x"
    then have "2 \<le> length c" using s by auto
    then show "x \<in> set c" using oldlongest_fold [OF pos] a unfolding rk_def by auto
  qed
  have "main_prog lines = Some (longest rk, oldlongest rk, of_nat (length c))
        \<and> (oldlongest rk = None \<longleftrightarrow> length c \<le> 1)
        \<and> (longest rk = None \<longleftrightarrow> c = [])
        \<and> (\<forall>x. longest rk = Some x \<longrightarrow> x \<in> set c)
        \<and> (\<forall>x. oldlongest rk = Some x \<longrightarrow> x \<in> set c)"
    using run l s lm sm by simp
  then show ?thesis
    unfolding c_def [symmetric]
    by (intro exI [of _ "longest rk"] exI [of _ "oldlongest rk"])
qed

theorem second_slot_filled_from_two_words_witness:
  "list_all wf_line [''a'' @ CRLF, ''aa'' @ CRLF, ''aaa'' @ CRLF]
   \<and> length (confirmed_words [''a'' @ CRLF, ''aa'' @ CRLF, ''aaa'' @ CRLF]) = 2
   \<and> (\<exists>l s. main_prog [''a'' @ CRLF, ''aa'' @ CRLF, ''aaa'' @ CRLF] = Some (Some l, Some s, 2)
        \<and> l \<in> set (confirmed_words [''a'' @ CRLF, ''aa'' @ CRLF, ''aaa'' @ CRLF])
        \<and> s \<in> set (confirmed_words [''a'' @ CRLF, ''aa'' @ CRLF, ''aaa'' @ CRLF]))"
proof -
  let ?L = "[''a'' @ CRLF, ''aa'' @ CRLF, ''aaa'' @ CRLF]"
  have h1: "list_all wf_line ?L" by (simp add: wf_defs)
  have c: "confirmed_words ?L = [''aaa'' @ CRLF, ''aa'' @ CRLF]"
    by (simp add: confirmed_words_eq rec_ok_def run_defs)
  have h2: "length (confirmed_words ?L) = 2" unfolding c by simp
  obtain l s where ls: "main_prog ?L = Some (l, s, of_nat (length (confirmed_words ?L)))"
    "s = None \<longleftrightarrow> length (confirmed_words ?L) \<le> 1"
    "l = None \<longleftrightarrow> confirmed_words ?L = []"
    "\<forall>x. l = Some x \<longrightarrow> x \<in> set (confirmed_words ?L)"
    "\<forall>x. s = Some x \<longrightarrow> x \<in> set (confirmed_words ?L)"
    using second_slot_filled_from_two_words [OF h1] by blast
  from ls(2) h2 obtain s' where s': "s = Some s'" by (cases s) auto
  from ls(3) h2 obtain l' where l': "l = Some l'" by (cases l) auto
  have "main_prog ?L = Some (Some l', Some s', 2)" using ls(1) h2 s' l' by simp
  moreover have "l' \<in> set (confirmed_words ?L)" "s' \<in> set (confirmed_words ?L)"
    using ls(4,5) s' l' by simp_all
  ultimately show ?thesis using h1 h2 by blast
qed

end

